theory Spec2Isabelle
  imports Main "HOL-Library.FSet" "HOL-Library.Product_Lexorder"
begin

section \<open>Data model of the contract coordinator\<close>

text \<open>
  Shallow embedding of \<^verbatim>\<open>clustering/table_contract/coordinator/calculate_contracts.cc\<close>.

  Identifiers (\<^verbatim>\<open>server_id_t\<close>, \<^verbatim>\<open>contract_id_t\<close>, \<^verbatim>\<open>branch_id_t\<close>) are UUIDs: opaque,
  totally ordered values with one distinguished nil value. The code only compares them, so
  they are natural numbers here and the nil UUID is \<open>0\<close>. A \<^verbatim>\<open>state_timestamp_t\<close> wraps
  an unsigned counter that the code only compares.

  A \<^verbatim>\<open>std::set\<close> is a finite set (\<open>fset\<close>); the code iterates it in ascending order, which is
  \<open>sorted_list_of_fset\<close>. A \<^verbatim>\<open>std::map\<close> that is only looked up is a partial function.
\<close>

type_synonym uuid_u = nat
type_synonym server_id_t = uuid_u
type_synonym contract_id_t = uuid_u
type_synonym branch_id_t = uuid_u
type_synonym state_timestamp_t = nat

definition nil_uuid :: uuid_u where
  "nil_uuid = 0"

definition is_nil :: "uuid_u \<Rightarrow> bool" where
  "is_nil u = (u = nil_uuid)"

text \<open>
  Modelled from the spec: \<^verbatim>\<open>contract_ack_t::state_t\<close> is declared outside the sources at
  hand; these are the states that the specification lists, four of which the source names.
\<close>

datatype state_t =
    primary_need_branch
  | primary_ready
  | secondary_need_primary
  | secondary_backfilling
  | secondary_streaming
  | nothing

text \<open>
  \<^verbatim>\<open>contract_ack_frag_t\<close> (lines 16-28). Its field \<^verbatim>\<open>branch\<close> is \<open>frag_branch\<close> here, since
  \<^verbatim>\<open>contract_t\<close> has a field of the same name.
\<close>

record contract_ack_frag_t =
  state :: state_t
  version :: "state_timestamp_t option"
  frag_branch :: "branch_id_t option"

text \<open>
  Modelled from the spec: \<^verbatim>\<open>contract_t::primary_t\<close> and \<^verbatim>\<open>contract_t\<close> are declared in a header
  outside the sources at hand. The fields are those of the specification's data model that
  the source reads or writes; the specification also lists a flag \<open>warm_shutdown\<close> of the
  primary, which the source mentions in one comment and never reads or writes, and which
  is left out. A freshly declared \<^verbatim>\<open>primary_t\<close> has no \<^verbatim>\<open>hand_over\<close>.
\<close>

record primary_t =
  server :: server_id_t
  hand_over :: "server_id_t option"

record contract_t =
  replicas :: "server_id_t fset"
  voters :: "server_id_t fset"
  temp_voters :: "server_id_t fset option"
  primary :: "primary_t option"
  branch :: branch_id_t

text \<open>
  Modelled from the spec: \<^verbatim>\<open>table_config_t::shard_t\<close> is declared outside the sources at
  hand, with the configuration surface \<open>all_replicas\<close>, \<open>voting_replicas()\<close> and
  \<open>primary_replica\<close>; the field \<open>voting_replicas\<close> holds the set that the method returns.
\<close>

record shard_t =
  all_replicas :: "server_id_t fset"
  voting_replicas :: "server_id_t fset"
  primary_replica :: server_id_t

text \<open>
  The connections map: \<^verbatim>\<open>get_key\<close> returns an optional \<^verbatim>\<open>empty_value_t\<close>, present for
  \<open>(X, Y)\<close> when the coordinator sees \<open>X\<close> and \<open>X\<close> sees \<open>Y\<close>.
\<close>

type_synonym connections_map_t = "(server_id_t \<times> server_id_t) \<rightharpoonup> unit"
type_synonym acks_t = "server_id_t \<rightharpoonup> contract_ack_frag_t"

text \<open>
  Dereferencing an empty \<^verbatim>\<open>boost::optional\<close> and a failed \<^verbatim>\<open>guarantee\<close> abort the
  computation; both are error values of the model.
\<close>

datatype error = Empty_optional_dereferenced | Guarantee_failed

text \<open>
  Log output. Each \<^verbatim>\<open>logINF\<close> call of the source is guarded by \<^verbatim>\<open>!log_prefix.empty()\<close> and
  prints the prefix followed by one of six messages; a log line is the prefix paired with
  the message and the servers it names.
\<close>

datatype log_message =
    Beginning_replica_set_change
  | Committed_replica_set_change
  | Stopping_no_longer_voter server_id_t
  | Selected_as_primary server_id_t
  | Stopping_majority_cannot_reach server_id_t
  | Handing_over_primary server_id_t server_id_t

type_synonym log_line = "string \<times> log_message"

definition logINF :: "string \<Rightarrow> log_message \<Rightarrow> log_line list \<Rightarrow> log_line list" where
  "logINF log_prefix msg log = (if log_prefix \<noteq> [] then log @ [(log_prefix, msg)] else log)"

section \<open>The visibility oracle\<close>

text \<open>
  \<^verbatim>\<open>invisible_to_majority_of_set\<close> (lines 64-77): the loop counts the judges that are taken
  to see \<open>target\<close>, and the result is \<^verbatim>\<open>!(count > judges.size() / 2)\<close>.
\<close>

definition invisible_to_majority_of_set ::
  "server_id_t \<Rightarrow> server_id_t fset \<Rightarrow> connections_map_t \<Rightarrow> bool" where
  "invisible_to_majority_of_set target judges connections_map =
     (let count = foldl (\<lambda>count s.
            if connections_map (s, target) \<noteq> None \<or> connections_map (s, s) = None
            then count + 1 else count) (0::nat) (sorted_list_of_fset judges)
      in \<not> (count > fcard judges div 2))"

section \<open>The contract calculator\<close>

text \<open>
  \<^verbatim>\<open>calculate_contract\<close> (lines 83-389) edits a working copy \<open>new_c\<close> of \<open>old_c\<close> in a
  sequence of steps. Each step below is one block of the source and threads the working
  copy and the log lines printed so far.

  Lines 107-131: begin a voter change. The loop counts the servers of
  \<open>config_voting_replicas\<close> that have an ack and are either streaming or the old primary.
\<close>

definition begin_voter_change ::
  "contract_t \<Rightarrow> server_id_t fset \<Rightarrow> acks_t \<Rightarrow> string \<Rightarrow> contract_t \<times> log_line list
   \<Rightarrow> contract_t \<times> log_line list" where
  "begin_voter_change old_c config_voting_replicas acks log_prefix st =
     (case st of (new_c, log) \<Rightarrow>
      if temp_voters old_c = None \<and> voters old_c \<noteq> config_voting_replicas then
        (let num_streaming = foldl (\<lambda>num_streaming srv.
               if (case acks srv of
                     None \<Rightarrow> False
                   | Some a \<Rightarrow> state a = secondary_streaming \<or>
                       (case primary old_c of None \<Rightarrow> False | Some p \<Rightarrow> server p = srv))
               then num_streaming + 1 else num_streaming)
               (0::nat) (sorted_list_of_fset config_voting_replicas)
         in if num_streaming > fcard config_voting_replicas div 2
            then (new_c\<lparr>temp_voters := Some config_voting_replicas\<rparr>,
                  logINF log_prefix Beginning_replica_set_change log)
            else (new_c, log))
      else (new_c, log))"

text \<open>
  Lines 135-154: commit a voter change. \<^verbatim>\<open>*new_c.temp_voters\<close> dereferences the working
  copy's optional.
\<close>

definition commit_voter_change ::
  "contract_t \<Rightarrow> acks_t \<Rightarrow> string \<Rightarrow> contract_t \<times> log_line list
   \<Rightarrow> error + contract_t \<times> log_line list" where
  "commit_voter_change old_c acks log_prefix st =
     (case st of (new_c, log) \<Rightarrow>
      if temp_voters old_c \<noteq> None then
        (if (case primary old_c of
               None \<Rightarrow> False
             | Some p \<Rightarrow> (case acks (server p) of
                            None \<Rightarrow> False
                          | Some a \<Rightarrow> state a = primary_ready))
         then (case temp_voters new_c of
                 None \<Rightarrow> Inl Empty_optional_dereferenced
               | Some tv \<Rightarrow>
                   Inr (new_c\<lparr>voters := tv, temp_voters := None\<rparr>,
                        logINF log_prefix Committed_replica_set_change log))
         else Inr (new_c, log))
      else Inr (new_c, log))"

text \<open>Lines 161-178: the voters that a majority of each voter set may see.\<close>

definition compute_visible_voters :: "contract_t \<Rightarrow> connections_map_t \<Rightarrow> server_id_t fset" where
  "compute_visible_voters new_c connections_map =
     foldl (\<lambda>visible_voters srv.
        if srv |\<notin>| voters new_c \<and>
           (case temp_voters new_c of None \<Rightarrow> True | Some tv \<Rightarrow> srv |\<notin>| tv)
        then visible_voters
        else if invisible_to_majority_of_set srv (voters new_c) connections_map
        then visible_voters
        else if (case temp_voters new_c of
                   None \<Rightarrow> False
                 | Some tv \<Rightarrow> invisible_to_majority_of_set srv tv connections_map)
        then visible_voters
        else finsert srv visible_voters)
       {||} (sorted_list_of_fset (replicas new_c))"

text \<open>
  Lines 182-198: remove replicas that left the configuration and both voter sets, and
  note whether the old primary is among them. The state of the loop is the working copy,
  \<open>should_kill_primary\<close> and the log; \<open>prune_step\<close> is the loop body.
\<close>

definition prune_step ::
  "contract_t \<Rightarrow> shard_t \<Rightarrow> string \<Rightarrow> contract_t \<times> bool \<times> log_line list \<Rightarrow> server_id_t
   \<Rightarrow> contract_t \<times> bool \<times> log_line list" where
  "prune_step old_c config log_prefix st srv =
     (case st of (new_c, should_kill_primary, log) \<Rightarrow>
      if srv |\<notin>| all_replicas config \<and> srv |\<notin>| voters new_c \<and>
         (case temp_voters new_c of None \<Rightarrow> True | Some tv \<Rightarrow> srv |\<notin>| tv)
      then (let new_c = new_c\<lparr>replicas := replicas new_c |-| {|srv|}\<rparr>
            in if (case primary old_c of None \<Rightarrow> False | Some p \<Rightarrow> server p = srv)
               then (new_c, True, logINF log_prefix (Stopping_no_longer_voter srv) log)
               else (new_c, should_kill_primary, log))
      else (new_c, should_kill_primary, log))"

definition prune_replicas ::
  "contract_t \<Rightarrow> shard_t \<Rightarrow> string \<Rightarrow> contract_t \<times> log_line list
   \<Rightarrow> contract_t \<times> bool \<times> log_line list" where
  "prune_replicas old_c config log_prefix st =
     (case st of (new_c, log) \<Rightarrow>
      foldl (prune_step old_c config log_prefix) (new_c, False, log)
        (sorted_list_of_fset (replicas old_c)))"

text \<open>
  Lines 221-229: collect the candidates among the voters. \<^verbatim>\<open>*(acks.at(server).version)\<close>
  dereferences the optional version of the ack.
\<close>

fun collect_candidates ::
  "acks_t \<Rightarrow> server_id_t list \<Rightarrow> (state_timestamp_t \<times> server_id_t) list
   \<Rightarrow> error + (state_timestamp_t \<times> server_id_t) list" where
  "collect_candidates acks [] sorted_candidates = Inr sorted_candidates"
| "collect_candidates acks (srv # rest) sorted_candidates =
     (case acks srv of
        None \<Rightarrow> collect_candidates acks rest sorted_candidates
      | Some a \<Rightarrow>
          if state a = secondary_need_primary then
            (case version a of
               None \<Rightarrow> Inl Empty_optional_dereferenced
             | Some v \<Rightarrow> collect_candidates acks rest (sorted_candidates @ [(v, srv)]))
          else collect_candidates acks rest sorted_candidates)"

text \<open>
  Lines 248-252: the inner \<^verbatim>\<open>while\<close> loop that advances \<open>up_to_date_count\<close> over the
  candidates that share the timestamp of candidate \<open>i\<close>.
\<close>

function advance_up_to_date_count ::
  "(state_timestamp_t \<times> server_id_t) list \<Rightarrow> nat \<Rightarrow> nat \<Rightarrow> nat" where
  "advance_up_to_date_count sorted_candidates i up_to_date_count =
     (if up_to_date_count < length sorted_candidates \<and>
         fst (sorted_candidates ! up_to_date_count) = fst (sorted_candidates ! i)
      then advance_up_to_date_count sorted_candidates i (up_to_date_count + 1)
      else up_to_date_count)"
  by pat_completeness auto
termination
  by (relation "measure (\<lambda>(sc, i, n). length sc - n)") auto

declare advance_up_to_date_count.simps [simp del]

text \<open>Lines 233-258: the loop over the indices of the sorted candidates.\<close>

function eligible_loop ::
  "(state_timestamp_t \<times> server_id_t) list \<Rightarrow> server_id_t fset \<Rightarrow> nat \<Rightarrow> nat
   \<Rightarrow> server_id_t list \<Rightarrow> server_id_t list" where
  "eligible_loop sorted_candidates visible_voters voters_size i eligible_candidates =
     (if i < length sorted_candidates then
        (let srv = snd (sorted_candidates ! i) in
         if srv |\<notin>| visible_voters
         then eligible_loop sorted_candidates visible_voters voters_size (i + 1)
                eligible_candidates
         else (let up_to_date_count =
                     advance_up_to_date_count sorted_candidates i (i + 1)
               in if up_to_date_count > voters_size div 2
                  then eligible_loop sorted_candidates visible_voters voters_size (i + 1)
                         (eligible_candidates @ [srv])
                  else eligible_loop sorted_candidates visible_voters voters_size (i + 1)
                         eligible_candidates))
      else eligible_candidates)"
  by pat_completeness auto
termination
  by (relation "measure (\<lambda>(sc, vis, n, i, acc). length sc - i)") auto

declare eligible_loop.simps [simp del]

text \<open>Lines 261-286: pick the primary among the eligible candidates.\<close>

definition pick_primary ::
  "shard_t \<Rightarrow> acks_t \<Rightarrow> server_id_t fset \<Rightarrow> server_id_t list \<Rightarrow> contract_t \<Rightarrow> contract_t" where
  "pick_primary config acks visible_voters eligible_candidates new_c =
     (if primary_replica config \<in> set eligible_candidates then
        new_c\<lparr>primary := Some \<lparr>server = primary_replica config, hand_over = None\<rparr>\<rparr>
      else if eligible_candidates \<noteq> [] then
        (if \<not> is_nil (primary_replica config) \<and>
            primary_replica config |\<in>| visible_voters \<and>
            acks (primary_replica config) = None
         then new_c
         else new_c\<lparr>primary := Some \<lparr>server = last eligible_candidates, hand_over = None\<rparr>\<rparr>)
      else new_c)"

text \<open>Lines 209-294: the election, run when the old contract has no primary.\<close>

definition elect_primary ::
  "contract_t \<Rightarrow> shard_t \<Rightarrow> acks_t \<Rightarrow> server_id_t fset \<Rightarrow> string
   \<Rightarrow> contract_t \<times> log_line list \<Rightarrow> error + contract_t \<times> log_line list" where
  "elect_primary old_c config acks visible_voters log_prefix st =
     (case st of (new_c, log) \<Rightarrow>
      if primary old_c = None then
        (case collect_candidates acks (sorted_list_of_fset (voters new_c)) [] of
           Inl e \<Rightarrow> Inl e
         | Inr unsorted \<Rightarrow>
             (let sorted_candidates = sort unsorted;
                  eligible_candidates =
                    eligible_loop sorted_candidates visible_voters (fcard (voters new_c)) 0 [];
                  new_c = pick_primary config acks visible_voters eligible_candidates new_c
              in case primary new_c of
                   None \<Rightarrow> Inr (new_c, log)
                 | Some p \<Rightarrow> Inr (new_c, logINF log_prefix (Selected_as_primary (server p)) log)))
      else Inr (new_c, log))"

text \<open>
  Every \<^verbatim>\<open>new_c.primary->hand_over = ...\<close> of lines 310-386 dereferences the working copy's
  optional primary.
\<close>

definition set_hand_over :: "server_id_t option \<Rightarrow> contract_t \<Rightarrow> error + contract_t" where
  "set_hand_over h new_c =
     (case primary new_c of
        None \<Rightarrow> Inl Empty_optional_dereferenced
      | Some p \<Rightarrow> Inr (new_c\<lparr>primary := Some (p\<lparr>hand_over := h\<rparr>)\<rparr>))"

definition with_log :: "log_line list \<Rightarrow> error + contract_t \<Rightarrow> error + contract_t \<times> log_line list" where
  "with_log log r = (case r of Inl e \<Rightarrow> Inl e | Inr new_c \<Rightarrow> Inr (new_c, log))"

text \<open>
  Lines 330-385: the old primary \<open>old_p\<close> stays; start, cancel, complete or abort a
  hand-over to \<open>config.primary_replica\<close>.
\<close>

definition update_hand_over ::
  "primary_t \<Rightarrow> shard_t \<Rightarrow> acks_t \<Rightarrow> server_id_t fset \<Rightarrow> string
   \<Rightarrow> contract_t \<times> log_line list \<Rightarrow> error + contract_t \<times> log_line list" where
  "update_hand_over old_p config acks visible_voters log_prefix st =
     (case st of (new_c, log) \<Rightarrow>
      if server old_p \<noteq> primary_replica config then
        (if hand_over old_p \<noteq> Some (primary_replica config) then
           (if (case acks (primary_replica config) of
                  None \<Rightarrow> False
                | Some a \<Rightarrow> state a = secondary_streaming) \<and>
               primary_replica config |\<in>| visible_voters
            then with_log
                   (logINF log_prefix
                      (Handing_over_primary (server old_p) (primary_replica config)) log)
                   (set_hand_over (Some (primary_replica config)) new_c)
            else if hand_over old_p \<noteq> None
                 then with_log log (set_hand_over None new_c)
                 else Inr (new_c, log))
         else
           (if (case acks (server old_p) of
                  None \<Rightarrow> False
                | Some a \<Rightarrow> state a = primary_ready)
            then Inr (new_c\<lparr>primary := None\<rparr>, log)
            else if primary_replica config |\<notin>| visible_voters
                 then with_log log (set_hand_over None new_c)
                 else Inr (new_c, log)))
      else
        (if hand_over old_p \<noteq> None
         then with_log log (set_hand_over None new_c)
         else Inr (new_c, log)))"

text \<open>Lines 310-386: the auto-failover check, then the kill or the hand-over handling.\<close>

definition handle_existing_primary ::
  "contract_t \<Rightarrow> shard_t \<Rightarrow> acks_t \<Rightarrow> server_id_t fset \<Rightarrow> bool \<Rightarrow> string
   \<Rightarrow> contract_t \<times> log_line list \<Rightarrow> error + contract_t \<times> log_line list" where
  "handle_existing_primary old_c config acks visible_voters should_kill_primary0 log_prefix st =
     (case st of (new_c, log0) \<Rightarrow>
      (case primary old_c of
         None \<Rightarrow> Inr (new_c, log0)
       | Some old_p \<Rightarrow>
          (let (should_kill_primary, log) =
                 (if \<not> should_kill_primary0 \<and> server old_p |\<notin>| visible_voters
                  then (True, logINF log_prefix (Stopping_majority_cannot_reach (server old_p)) log0)
                  else (should_kill_primary0, log0))
           in if should_kill_primary then
                Inr (new_c\<lparr>primary := None\<rparr>, log)
              else update_hand_over old_p config acks visible_voters log_prefix (new_c, log))))"

text \<open>\<^verbatim>\<open>calculate_contract\<close> itself: the steps in the order of the source.\<close>

definition calculate_contract ::
  "contract_t \<Rightarrow> shard_t \<Rightarrow> acks_t \<Rightarrow> connections_map_t \<Rightarrow> string
   \<Rightarrow> error + contract_t \<times> log_line list" where
  "calculate_contract old_c config acks connections_map log_prefix =
     (let new_c = old_c;
          new_c = new_c\<lparr>replicas := replicas new_c |\<union>| all_replicas config\<rparr>;
          config_voting_replicas = voting_replicas config;
          st = begin_voter_change old_c config_voting_replicas acks log_prefix (new_c, [])
      in case commit_voter_change old_c acks log_prefix st of
           Inl e \<Rightarrow> Inl e
         | Inr (new_c, log) \<Rightarrow>
            (let visible_voters = compute_visible_voters new_c connections_map
             in case prune_replicas old_c config log_prefix (new_c, log) of
                  (new_c, should_kill_primary, log) \<Rightarrow>
                   (case elect_primary old_c config acks visible_voters log_prefix (new_c, log) of
                      Inl e \<Rightarrow> Inl e
                    | Inr st \<Rightarrow>
                        handle_existing_primary old_c config acks visible_voters
                          should_kill_primary log_prefix st)))"

section \<open>The driver\<close>

text \<open>
  \<^verbatim>\<open>calculate_all_contracts\<close> (lines 401-546) works on regions of the key space. The region
  type, \<^verbatim>\<open>region_map_t\<close>, the shard scheme, the branch history and CPU sharding are declared
  outside the sources at hand, so the driver is modelled over an arbitrary ordered type of
  regions and takes the operations it calls on them as a record of functions:

  \<^item> \<open>region_intersection\<close> and \<open>region_is_empty\<close> are the functions of these names;
  \<^item> \<open>project_versions\<close> stands for the nested \<^verbatim>\<open>map_multi\<close> calls of lines 44-57: for the
    current branches, the two branch histories, a region and the version map of an ack, it
    gives the sub-regions with the timestamp of the common version on the canonical
    branch, in the order in which the resulting region map is visited;
  \<^item> \<open>visit_mutable\<close> is \<^verbatim>\<open>region_map_t::visit_mutable\<close> on the map \<open>frags_by_server\<close>, a
    region map being the list of its entries in visiting order;
  \<^item> \<open>get_cpu_shard_approx_number\<close> is the function of this name, and
    \<open>region_end_is_hash_size\<close> is the test \<^verbatim>\<open>reg.end == HASH_REGION_HASH_SIZE\<close>;
  \<^item> \<open>sliced_fragments\<close> stands for lines 510-523: for the shard scheme, the number of
    shards and the two vectors of new contracts it gives the pairs that the visits of the
    coalesced region map pass on, for every CPU shard and user shard in turn, or the failure
    of the \<^verbatim>\<open>guarantee\<close> of line 523.
\<close>

record ('region, 'versions, 'branches, 'history) region_ops =
  region_intersection :: "'region \<Rightarrow> 'region \<Rightarrow> 'region"
  region_is_empty :: "'region \<Rightarrow> bool"
  project_versions ::
    "'branches \<Rightarrow> 'history \<Rightarrow> 'history \<Rightarrow> 'region \<Rightarrow> 'versions
     \<Rightarrow> ('region \<times> state_timestamp_t) list"
  visit_mutable ::
    "'region \<Rightarrow> (acks_t \<Rightarrow> error + acks_t) \<Rightarrow> ('region \<times> acks_t) list
     \<Rightarrow> error + ('region \<times> acks_t) list"
  get_cpu_shard_approx_number :: "'region \<Rightarrow> int"
  region_end_is_hash_size :: "'region \<Rightarrow> bool"
  sliced_fragments ::
    "(nat \<Rightarrow> 'region) \<Rightarrow> nat \<Rightarrow> 'region list \<Rightarrow> contract_t list
     \<Rightarrow> error + ('region \<times> contract_t) list"

text \<open>
  Modelled from the spec: \<^verbatim>\<open>contract_ack_t\<close> is declared outside the sources at hand; it has
  the fields \<^verbatim>\<open>state\<close>, \<^verbatim>\<open>version\<close>, \<^verbatim>\<open>branch\<close> and \<^verbatim>\<open>branch_history\<close> that
  \<^verbatim>\<open>break_ack_into_fragments\<close> reads (with the prefix \<open>ack_\<close> here), the version being a map
  over regions. Of
  \<^verbatim>\<open>table_raft_state_t\<close> (further down) the driver reads the contracts (a \<^verbatim>\<open>std::map\<close>, here
  the list of its entries in key order), the shards of the table configuration, the shard
  scheme as the function from a shard index to its region, the current branches and the
  branch history.
\<close>

record ('versions, 'history) contract_ack_t =
  ack_state :: state_t
  ack_version :: "'versions option"
  ack_branch :: "branch_id_t option"
  ack_branch_history :: 'history

text \<open>\<^verbatim>\<open>break_ack_into_fragments\<close> (lines 30-59).\<close>

definition break_ack_into_fragments ::
  "('region, 'versions, 'branches, 'history) region_ops \<Rightarrow> 'region
   \<Rightarrow> ('versions, 'history) contract_ack_t \<Rightarrow> 'branches \<Rightarrow> 'history
   \<Rightarrow> ('region \<times> contract_ack_frag_t) list" where
  "break_ack_into_fragments ops region ack current_branches raft_branch_history =
     (let base_frag = \<lparr>state = ack_state ack, version = None, frag_branch = ack_branch ack\<rparr>
      in case ack_version ack of
           None \<Rightarrow> [(region, base_frag)]
         | Some vers \<Rightarrow>
             map (\<lambda>(reg, timestamp). (reg, base_frag\<lparr>version := Some timestamp\<rparr>))
               (project_versions ops current_branches raft_branch_history
                  (ack_branch_history ack) region vers))"

text \<open>
  Modelled from the spec: \<^verbatim>\<open>table_raft_state_t\<close> is declared outside the sources at hand; this
  is the part of it that the driver reads.
\<close>

record ('region, 'branches, 'history) table_raft_state_t =
  contracts :: "(contract_id_t \<times> 'region \<times> contract_t) list"
  shards :: "shard_t list"
  shard_scheme :: "nat \<Rightarrow> 'region"
  current_branches :: 'branches
  branch_history :: 'history

text \<open>
  A loop whose body may abort: the state is threaded through the elements of a list and
  the first error ends the loop.
\<close>

fun foldl_result :: "('s \<Rightarrow> 'a \<Rightarrow> error + 's) \<Rightarrow> 's \<Rightarrow> 'a list \<Rightarrow> error + 's" where
  "foldl_result f s [] = Inr s"
| "foldl_result f s (x # xs) =
     (case f s x of Inl e \<Rightarrow> Inl e | Inr s' \<Rightarrow> foldl_result f s' xs)"

text \<open>
  Lines 445-453: the fragments of one server's ack are inserted into \<open>frags_by_server\<close>;
  the \<^verbatim>\<open>guarantee\<close> fails if the server already has a fragment there.
\<close>

definition insert_frags ::
  "('region, 'versions, 'branches, 'history) region_ops \<Rightarrow> server_id_t
   \<Rightarrow> ('region \<times> acks_t) list \<Rightarrow> ('region \<times> contract_ack_frag_t) list
   \<Rightarrow> error + ('region \<times> acks_t) list" where
  "insert_frags ops srv frags_by_server frags =
     foldl_result (\<lambda>frags_by_server (reg, frag).
        visit_mutable ops reg
          (\<lambda>acks_map. if acks_map srv \<noteq> None then Inl Guarantee_failed
                       else Inr (acks_map(srv \<mapsto> frag)))
          frags_by_server)
       frags_by_server frags"

text \<open>
  Lines 434-454: \<open>frags_by_server\<close> starts as the region map with the empty map on
  \<open>region\<close>; \<^verbatim>\<open>read_all\<close> passes every ack, and those for the contract at hand are broken into
  fragments and inserted. The ack map is the list of the entries that \<^verbatim>\<open>read_all\<close> passes.
\<close>

definition collect_frags_by_server ::
  "('region, 'versions, 'branches, 'history) region_ops
   \<Rightarrow> ('region, 'branches, 'history) table_raft_state_t
   \<Rightarrow> ((server_id_t \<times> contract_id_t) \<times> ('versions, 'history) contract_ack_t) list
   \<Rightarrow> contract_id_t \<Rightarrow> 'region \<Rightarrow> error + ('region \<times> acks_t) list" where
  "collect_frags_by_server ops old_state acks cid region =
     foldl_result (\<lambda>frags_by_server (key, value).
        if snd key \<noteq> cid then Inr frags_by_server
        else insert_frags ops (fst key) frags_by_server
               (break_ack_into_fragments ops region value
                  (current_branches old_state) (branch_history old_state)))
       [(region, Map.empty)] acks"

text \<open>Decimal output of \<^verbatim>\<open>strprintf\<close> for \<^verbatim>\<open>%zu\<close> and \<^verbatim>\<open>%d\<close>.\<close>

definition digit_char :: "nat \<Rightarrow> char" where
  "digit_char d = char_of (of_char CHR ''0'' + d :: nat)"

function decimal_digits :: "nat \<Rightarrow> string \<Rightarrow> string" where
  "decimal_digits n acc =
     (let acc = digit_char (n mod 10) # acc
      in if n div 10 = 0 then acc else decimal_digits (n div 10) acc)"
  by pat_completeness auto
termination
  by (relation "measure (\<lambda>(n, acc). n)") auto

declare decimal_digits.simps [simp del]

definition decimal_of_nat :: "nat \<Rightarrow> string" where
  "decimal_of_nat n = decimal_digits n []"

definition decimal_of_int :: "int \<Rightarrow> string" where
  "decimal_of_int i =
     (if 0 \<le> i then decimal_digits (nat i) [] else CHR ''-'' # decimal_digits (nat (- i)) [])"

text \<open>
  Lines 487-500: register a branch if the primary, unchanged, asks for one. The branch of
  the ack is dereferenced, and the \<^verbatim>\<open>guarantee\<close> fails if the region already has a branch
  registered.
\<close>

definition register_branch ::
  "contract_t \<Rightarrow> contract_t \<Rightarrow> acks_t \<Rightarrow> 'region \<Rightarrow> ('region \<rightharpoonup> branch_id_t)
   \<Rightarrow> error + ('region \<rightharpoonup> branch_id_t)" where
  "register_branch old_contract new_contract acks_map reg register_current_branches_out =
     (case primary old_contract of
        None \<Rightarrow> Inr register_current_branches_out
      | Some old_p \<Rightarrow>
         (case primary new_contract of
            None \<Rightarrow> Inr register_current_branches_out
          | Some new_p \<Rightarrow>
              if server old_p = server new_p \<and>
                 (case acks_map (server old_p) of
                    None \<Rightarrow> False
                  | Some a \<Rightarrow> state a = primary_need_branch)
              then (case acks_map (server old_p) of
                      None \<Rightarrow> Inl Empty_optional_dereferenced
                    | Some a \<Rightarrow>
                       (case frag_branch a of
                          None \<Rightarrow> Inl Empty_optional_dereferenced
                        | Some b \<Rightarrow>
                            if register_current_branches_out reg \<noteq> None
                            then Inl Guarantee_failed
                            else Inr (register_current_branches_out(reg \<mapsto> b))))
              else Inr register_current_branches_out))"

text \<open>
  Lines 457-504: the visitor of one homogeneous sub-region. Its state is
  \<open>subshard_index\<close>, \<open>register_current_branches_out\<close>, the two vectors of new contracts and
  the log.
\<close>

type_synonym 'region visit_state =
  "nat \<times> ('region \<rightharpoonup> branch_id_t) \<times> 'region list \<times> contract_t list \<times> log_line list"

definition visit_subregion ::
  "('region, 'versions, 'branches, 'history) region_ops \<Rightarrow> contract_t \<Rightarrow> shard_t
   \<Rightarrow> connections_map_t \<Rightarrow> string \<Rightarrow> nat \<Rightarrow> 'region visit_state \<Rightarrow> 'region \<times> acks_t
   \<Rightarrow> error + 'region visit_state" where
  "visit_subregion ops old_contract shard connections_map log_prefix shard_index st frag =
     (case st of (subshard_index, register_current_branches_out,
                  new_contract_region_vector, new_contract_vector, log) \<Rightarrow>
      case frag of (reg, acks_map) \<Rightarrow>
      (let (log_subprefix, subshard_index) =
             (if log_prefix \<noteq> [] then
                (log_prefix @ '': shard '' @ decimal_of_nat shard_index @ ''.'' @
                   decimal_of_nat subshard_index @ ''.'' @
                   decimal_of_int (get_cpu_shard_approx_number ops reg),
                 if region_end_is_hash_size ops reg then subshard_index + 1 else subshard_index)
              else ([], subshard_index))
       in case calculate_contract old_contract shard acks_map connections_map log_subprefix of
            Inl e \<Rightarrow> Inl e
          | Inr (new_contract, log_lines) \<Rightarrow>
             (case register_branch old_contract new_contract acks_map reg
                     register_current_branches_out of
                Inl e \<Rightarrow> Inl e
              | Inr register_current_branches_out \<Rightarrow>
                  Inr (subshard_index, register_current_branches_out,
                       new_contract_region_vector @ [reg],
                       new_contract_vector @ [new_contract],
                       log @ log_lines))))"

text \<open>
  Lines 423-505: one shard of the table configuration against one contract. What the
  loops carry from one iteration to the next is \<open>register_current_branches_out\<close>, the two
  vectors and the log; \<open>subshard_index\<close> starts at 0 for every shard.
\<close>

type_synonym 'region driver_state =
  "('region \<rightharpoonup> branch_id_t) \<times> 'region list \<times> contract_t list \<times> log_line list"

definition shard_step ::
  "('region, 'versions, 'branches, 'history) region_ops
   \<Rightarrow> ('region, 'branches, 'history) table_raft_state_t
   \<Rightarrow> ((server_id_t \<times> contract_id_t) \<times> ('versions, 'history) contract_ack_t) list
   \<Rightarrow> connections_map_t \<Rightarrow> string \<Rightarrow> contract_id_t \<times> 'region \<times> contract_t
   \<Rightarrow> 'region driver_state \<Rightarrow> nat \<Rightarrow> error + 'region driver_state" where
  "shard_step ops old_state acks connections_map log_prefix cpair st shard_index =
     (let region = region_intersection ops (fst (snd cpair)) (shard_scheme old_state shard_index)
      in if region_is_empty ops region then Inr st
         else case collect_frags_by_server ops old_state acks (fst cpair) region of
                Inl e \<Rightarrow> Inl e
              | Inr frags_by_server \<Rightarrow>
                 (case foldl_result
                         (visit_subregion ops (snd (snd cpair)) (shards old_state ! shard_index)
                            connections_map log_prefix shard_index)
                         (0, st) frags_by_server of
                    Inl e \<Rightarrow> Inl e
                  | Inr (subshard_index, st') \<Rightarrow> Inr st'))"

text \<open>Lines 419-506: all contracts, and for each of them all shards.\<close>

definition calculate_new_contracts ::
  "('region, 'versions, 'branches, 'history) region_ops
   \<Rightarrow> ('region, 'branches, 'history) table_raft_state_t
   \<Rightarrow> ((server_id_t \<times> contract_id_t) \<times> ('versions, 'history) contract_ack_t) list
   \<Rightarrow> connections_map_t \<Rightarrow> string \<Rightarrow> 'region driver_state \<Rightarrow> error + 'region driver_state" where
  "calculate_new_contracts ops old_state acks connections_map log_prefix st =
     foldl_result (\<lambda>st cpair.
        foldl_result (shard_step ops old_state acks connections_map log_prefix cpair) st
          [0..<length (shards old_state)])
       st (contracts old_state)"

text \<open>
  A \<^verbatim>\<open>std::map\<close> that is iterated is the list of its entries in ascending key order;
  \<^verbatim>\<open>insert\<close> leaves the map alone when the key is present.
\<close>

definition map_insert :: "'k::linorder \<Rightarrow> 'v \<Rightarrow> ('k \<times> 'v) list \<Rightarrow> ('k \<times> 'v) list" where
  "map_insert k v m = (if map_of m k \<noteq> None then m else insort_key fst (k, v) m)"

definition map_erase :: "'k \<Rightarrow> ('k \<times> 'v) list \<Rightarrow> ('k \<times> 'v) list" where
  "map_erase k m = filter (\<lambda>kv. fst kv \<noteq> k) m"

text \<open>
  Lines 530-540: the first loop of the diff. An old contract whose exact region carries an
  equal contract in \<open>new_contract_map\<close> is erased from that map; any other old contract is
  put into \<open>remove_contracts_out\<close>.
\<close>

definition diff_step ::
  "('region \<times> contract_t) list \<times> contract_id_t fset \<Rightarrow> contract_id_t \<times> 'region \<times> contract_t
   \<Rightarrow> ('region \<times> contract_t) list \<times> contract_id_t fset" where
  "diff_step st cpair =
     (case st of (new_contract_map, remove_contracts_out) \<Rightarrow>
      (case map_of new_contract_map (fst (snd cpair)) of
         Some c \<Rightarrow>
           if c = snd (snd cpair)
           then (map_erase (fst (snd cpair)) new_contract_map, remove_contracts_out)
           else (new_contract_map, finsert (fst cpair) remove_contracts_out)
       | None \<Rightarrow> (new_contract_map, finsert (fst cpair) remove_contracts_out)))"

text \<open>
  Lines 541-546: every entry left in \<open>new_contract_map\<close> is inserted into
  \<open>add_contracts_out\<close> under a generated id. \<^verbatim>\<open>generate_uuid\<close> is declared outside the sources
  at hand; \<open>uuids\<close> is the sequence of the ids it returns, so the \<open>n\<close>-th call returns
  \<open>uuids n\<close>. \<^verbatim>\<open>insert\<close> leaves \<open>add_contracts_out\<close> alone when the id is present.
\<close>

fun add_new_contracts ::
  "(nat \<Rightarrow> contract_id_t) \<Rightarrow> nat \<Rightarrow> ('region \<times> contract_t) list
   \<Rightarrow> (contract_id_t \<rightharpoonup> 'region \<times> contract_t) \<Rightarrow> (contract_id_t \<rightharpoonup> 'region \<times> contract_t)" where
  "add_new_contracts uuids n [] add_contracts_out = add_contracts_out"
| "add_new_contracts uuids n (pair # rest) add_contracts_out =
     add_new_contracts uuids (n + 1) rest
       (if add_contracts_out (uuids n) \<noteq> None then add_contracts_out
        else add_contracts_out(uuids n \<mapsto> pair))"

text \<open>Lines 529-546: the diff of the new contracts against the old ones.\<close>

definition diff_contracts ::
  "(contract_id_t \<times> 'region \<times> contract_t) list \<Rightarrow> ('region \<times> contract_t) list
   \<Rightarrow> (nat \<Rightarrow> contract_id_t) \<Rightarrow> contract_id_t fset \<Rightarrow> (contract_id_t \<rightharpoonup> 'region \<times> contract_t)
   \<Rightarrow> contract_id_t fset \<times> (contract_id_t \<rightharpoonup> 'region \<times> contract_t)" where
  "diff_contracts old_contracts new_contract_map uuids remove_contracts_out add_contracts_out =
     (case foldl diff_step (new_contract_map, remove_contracts_out) old_contracts of
        (new_contract_map, remove_contracts_out) \<Rightarrow>
          (remove_contracts_out,
           add_new_contracts uuids 0 new_contract_map add_contracts_out))"

text \<open>
  \<^verbatim>\<open>calculate_all_contracts\<close>: the three output parameters are passed in and returned,
  together with the log. Lines 516-527 insert the sliced fragments into
  \<open>new_contract_map\<close>.
\<close>

record 'region diff_t =
  remove_contracts_out :: "contract_id_t fset"
  add_contracts_out :: "contract_id_t \<rightharpoonup> 'region \<times> contract_t"
  register_current_branches_out :: "'region \<rightharpoonup> branch_id_t"

definition calculate_all_contracts ::
  "('region::linorder, 'versions, 'branches, 'history) region_ops
   \<Rightarrow> ('region, 'branches, 'history) table_raft_state_t
   \<Rightarrow> ((server_id_t \<times> contract_id_t) \<times> ('versions, 'history) contract_ack_t) list
   \<Rightarrow> connections_map_t \<Rightarrow> string \<Rightarrow> (nat \<Rightarrow> contract_id_t) \<Rightarrow> 'region diff_t
   \<Rightarrow> error + 'region diff_t \<times> log_line list" where
  "calculate_all_contracts ops old_state acks connections_map log_prefix uuids out =
     (case calculate_new_contracts ops old_state acks connections_map log_prefix
             (register_current_branches_out out, [], [], []) of
        Inl e \<Rightarrow> Inl e
      | Inr (register_out, new_contract_region_vector, new_contract_vector, log) \<Rightarrow>
         (case sliced_fragments ops (shard_scheme old_state) (length (shards old_state))
                 new_contract_region_vector new_contract_vector of
            Inl e \<Rightarrow> Inl e
          | Inr fragments \<Rightarrow>
             (let new_contract_map =
                    foldl (\<lambda>m (reg, contract). map_insert reg contract m) [] fragments
              in case diff_contracts (contracts old_state) new_contract_map uuids
                        (remove_contracts_out out) (add_contracts_out out) of
                   (remove_out, add_out) \<Rightarrow>
                     Inr (\<lparr>remove_contracts_out = remove_out, add_contracts_out = add_out,
                           register_current_branches_out = register_out\<rparr>, log))))"

text \<open>The states of the driver's loops without \<open>subshard_index\<close> and the log.\<close>

definition visit_outputs ::
  "'region visit_state \<Rightarrow> ('region \<rightharpoonup> branch_id_t) \<times> 'region list \<times> contract_t list" where
  "visit_outputs st = (case st of (n, reg, rs, cs, l) \<Rightarrow> (reg, rs, cs))"

definition driver_outputs ::
  "'region driver_state \<Rightarrow> ('region \<rightharpoonup> branch_id_t) \<times> 'region list \<times> contract_t list" where
  "driver_outputs st = (case st of (reg, rs, cs, l) \<Rightarrow> (reg, rs, cs))"

section \<open>The election in the words of the specification\<close>

text \<open>
  The specification's account of the election, to be compared with the loops above.
  The candidates are the voters whose ack is in state \<open>secondary_need_primary\<close>, each
  with the timestamp of its version, sorted by timestamp and then server.
\<close>

definition spec_candidates ::
  "server_id_t fset \<Rightarrow> acks_t \<Rightarrow> (state_timestamp_t \<times> server_id_t) list" where
  "spec_candidates vs acks =
     sort (concat (map (\<lambda>s. case acks s of
                              None \<Rightarrow> []
                            | Some a \<Rightarrow>
                                if state a = secondary_need_primary
                                then (case version a of None \<Rightarrow> [] | Some v \<Rightarrow> [(v, s)])
                                else [])
                       (sorted_list_of_fset vs)))"

text \<open>
  The candidate at index \<open>i\<close> is at least as up-to-date as itself, the \<open>i\<close> candidates
  before it, and the candidates after it that have its timestamp.
\<close>

definition spec_up_to_date_count :: "(state_timestamp_t \<times> server_id_t) list \<Rightarrow> nat \<Rightarrow> nat" where
  "spec_up_to_date_count cands i =
     1 + i + length (filter (\<lambda>c. fst c = fst (cands ! i)) (drop (Suc i) cands))"

text \<open>
  A candidate is eligible when it is a visible voter and is at least as up-to-date as
  strictly more than half of the voters; the eligible candidates keep the sorted order.
\<close>

definition spec_eligible ::
  "server_id_t fset \<Rightarrow> server_id_t fset \<Rightarrow> (state_timestamp_t \<times> server_id_t) list \<Rightarrow> server_id_t list" where
  "spec_eligible vs visible_voters cands =
     map (\<lambda>i. snd (cands ! i))
       (filter (\<lambda>i. snd (cands ! i) |\<in>| visible_voters \<and>
                     2 * spec_up_to_date_count cands i > fcard vs)
          [0..<length cands])"

text \<open>
  The choice: the designated primary if it is eligible; otherwise nobody if the designated
  primary is non-nil, visible and has sent no ack; otherwise the last eligible candidate,
  if there is one.
\<close>

definition spec_elect ::
  "shard_t \<Rightarrow> acks_t \<Rightarrow> server_id_t fset \<Rightarrow> server_id_t fset \<Rightarrow> server_id_t option" where
  "spec_elect config acks vs visible_voters =
     (let eligible = spec_eligible vs visible_voters (spec_candidates vs acks)
      in if primary_replica config \<in> set eligible then Some (primary_replica config)
         else if primary_replica config \<noteq> nil_uuid \<and>
                 primary_replica config |\<in>| visible_voters \<and>
                 acks (primary_replica config) = None
              then None
         else if eligible = [] then None
         else Some (last eligible))"

section \<open>Example inputs\<close>

text \<open>
  Inputs for the examples below. In \<open>conn_all\<close> the coordinator sees servers 1 to 4 and they
  all see each other; \<open>conn_2_unseen\<close> is \<open>conn_all\<close> without the other servers' connections to
  server 2; in \<open>conn_half_split\<close> the coordinator sees servers 1 and 2, and server 1
  sees server 3. The contracts and configurations are those of the specification's scenarios.
\<close>

definition conn_all :: connections_map_t where
  "conn_all = (\<lambda>(a, b). if a \<in> {1, 2, 3, 4} \<and> b \<in> {1, 2, 3, 4} then Some () else None)"

definition ack_of :: "state_t \<Rightarrow> contract_ack_frag_t" where
  "ack_of s = \<lparr>state = s, version = None, frag_branch = None\<rparr>"

definition need_primary_at :: "state_timestamp_t \<Rightarrow> contract_ack_frag_t" where
  "need_primary_at v = \<lparr>state = secondary_need_primary, version = Some v, frag_branch = None\<rparr>"

definition config_123 :: "server_id_t \<Rightarrow> shard_t" where
  "config_123 p = \<lparr>all_replicas = {|1, 2, 3|}, voting_replicas = {|1, 2, 3|}, primary_replica = p\<rparr>"

definition config_234 :: shard_t where
  "config_234 = \<lparr>all_replicas = {|2, 3, 4|}, voting_replicas = {|2, 3, 4|}, primary_replica = 2\<rparr>"

definition contract_123 :: "primary_t option \<Rightarrow> contract_t" where
  "contract_123 p = \<lparr>replicas = {|1, 2, 3|}, voters = {|1, 2, 3|}, temp_voters = None,
                      primary = p, branch = 7\<rparr>"

definition contract_changing :: contract_t where
  "contract_changing = \<lparr>replicas = {|1, 2, 3, 4|}, voters = {|1, 2, 3|},
                         temp_voters = Some {|2, 3, 4|},
                         primary = Some \<lparr>server = 1, hand_over = None\<rparr>, branch = 7\<rparr>"

definition conn_2_unseen :: connections_map_t where
  "conn_2_unseen = (\<lambda>(a, b). if b = 2 \<and> a \<noteq> 2 then None else conn_all (a, b))"

definition acks_1_3 :: acks_t where
  "acks_1_3 = [1 \<mapsto> need_primary_at 10, 3 \<mapsto> need_primary_at 10]"

text \<open>
  A small world for the driver. Regions are sets of cells, written as bit masks: the table
  has one user shard, region 3, made of the two CPU shards 1 and 2, and 0 is the empty
  region. An ack's version map has one timestamp on its whole region. Coalescing and
  re-slicing give back the fragments of the two CPU shards.
\<close>

definition two_cpu_shards :: "(nat, state_timestamp_t, unit, unit) region_ops" where
  "two_cpu_shards =
     \<lparr>region_intersection = (\<lambda>a b. and a b),
      region_is_empty = (\<lambda>r. r = 0),
      project_versions = (\<lambda>branches raft_history ack_history reg vers. [(reg, vers)]),
      visit_mutable = (\<lambda>reg f m.
         foldl_result (\<lambda>acc (r, v).
            if r = reg then (case f v of Inl e \<Rightarrow> Inl e | Inr v' \<Rightarrow> Inr (acc @ [(r, v')]))
            else Inr (acc @ [(r, v)])) [] m),
      get_cpu_shard_approx_number = (\<lambda>r. int r - 1),
      region_end_is_hash_size = (\<lambda>r. r = 2),
      sliced_fragments = (\<lambda>scheme n regions cs. Inr (zip regions cs))\<rparr>"

definition need_primary_ack :: "state_timestamp_t \<Rightarrow> (state_timestamp_t, unit) contract_ack_t" where
  "need_primary_ack v =
     \<lparr>ack_state = secondary_need_primary, ack_version = Some v, ack_branch = None,
      ack_branch_history = ()\<rparr>"

definition need_branch_ack :: "branch_id_t \<Rightarrow> (state_timestamp_t, unit) contract_ack_t" where
  "need_branch_ack b =
     \<lparr>ack_state = primary_need_branch, ack_version = None, ack_branch = Some b,
      ack_branch_history = ()\<rparr>"

definition state_two_contracts :: "(nat, unit, unit) table_raft_state_t" where
  "state_two_contracts =
     \<lparr>contracts = [(1, 1, contract_123 None),
                   (2, 2, contract_123 (Some \<lparr>server = 2, hand_over = None\<rparr>))],
      shards = [config_123 2],
      shard_scheme = (\<lambda>i. 3),
      current_branches = (),
      branch_history = ()\<rparr>"

definition acks_two_contracts ::
  "((server_id_t \<times> contract_id_t) \<times> (state_timestamp_t, unit) contract_ack_t) list" where
  "acks_two_contracts =
     [((1, 1), need_primary_ack 10), ((2, 1), need_primary_ack 10),
      ((3, 1), need_primary_ack 10), ((2, 2), need_branch_ack 9)]"



definition empty_diff :: "nat diff_t" where
  "empty_diff = \<lparr>remove_contracts_out = {||}, add_contracts_out = Map.empty,
                  register_current_branches_out = Map.empty\<rparr>"

definition contract_one_voter :: contract_t where
  "contract_one_voter = \<lparr>replicas = {|1, 2, 3|}, voters = {|1|}, temp_voters = None,
                          primary = Some \<lparr>server = 1, hand_over = None\<rparr>, branch = 7\<rparr>"


definition conn_half_split :: connections_map_t where
  "conn_half_split = [(1, 1) \<mapsto> (), (2, 2) \<mapsto> (), (1, 3) \<mapsto> ()]"

section \<open>Counting loops over finite sets\<close>

lemma foldl_count_filter:
  "foldl (\<lambda>c x. if P x then c + 1 else c) (n::nat) xs = n + length (filter P xs)"
  by (induction xs arbitrary: n) simp_all

lemma length_filter_sorted_list_of_fset:
  "length (filter P (sorted_list_of_fset A)) = fcard (ffilter P A)"
proof -
  have "distinct (filter P (sorted_list_of_fset A))"
    by (simp add: sorted_list_of_fset.rep_eq)
  then have "card (set (filter P (sorted_list_of_fset A))) = length (filter P (sorted_list_of_fset A))"
    by (rule distinct_card)
  moreover have "set (filter P (sorted_list_of_fset A)) = fset (ffilter P A)"
    by (auto simp: sorted_list_of_fset.rep_eq)
  ultimately show ?thesis
    by (simp add: fcard.rep_eq)
qed

lemma fcard_ffilter_split:
  "fcard (ffilter P A) + fcard (ffilter (\<lambda>x. \<not> P x) A) = fcard A"
proof -
  have "ffilter P A |\<union>| ffilter (\<lambda>x. \<not> P x) A = A" by auto
  moreover have "ffilter P A |\<inter>| ffilter (\<lambda>x. \<not> P x) A = {||}" by auto
  ultimately show ?thesis
    by (metis fcard_funion_finter fcard_fempty add.right_neutral)
qed

lemma count_seeing_judges:
  "foldl (\<lambda>count s. if connections_map (s, target) \<noteq> None \<or> connections_map (s, s) = None
                     then count + 1 else count) (0::nat) (sorted_list_of_fset judges)
   = fcard (ffilter (\<lambda>s. connections_map (s, target) \<noteq> None \<or> connections_map (s, s) = None) judges)"
  by (simp add: foldl_count_filter length_filter_sorted_list_of_fset)

section \<open>The steps of the calculator, without their log output\<close>

lemma begin_voter_change_fst:
  "fst (begin_voter_change old_c cvr acks log_prefix (new_c, log)) =
     (if temp_voters old_c = None \<and> voters old_c \<noteq> cvr \<and>
         fcard (ffilter (\<lambda>srv. case acks srv of
                     None \<Rightarrow> False
                   | Some a \<Rightarrow> state a = secondary_streaming \<or>
                       (case primary old_c of None \<Rightarrow> False | Some p \<Rightarrow> server p = srv)) cvr)
           > fcard cvr div 2
      then new_c\<lparr>temp_voters := Some cvr\<rparr> else new_c)"
  by (simp add: begin_voter_change_def Let_def foldl_count_filter
      length_filter_sorted_list_of_fset)

lemma commit_voter_change_fst:
  "map_sum id fst (commit_voter_change old_c acks log_prefix (new_c, log)) =
     (if temp_voters old_c \<noteq> None \<and>
         (case primary old_c of
               None \<Rightarrow> False
             | Some p \<Rightarrow> (case acks (server p) of
                            None \<Rightarrow> False
                          | Some a \<Rightarrow> state a = primary_ready))
      then (case temp_voters new_c of
              None \<Rightarrow> Inl Empty_optional_dereferenced
            | Some tv \<Rightarrow> Inr (new_c\<lparr>voters := tv, temp_voters := None\<rparr>))
      else Inr new_c)"
  by (simp add: commit_voter_change_def split: option.splits)

lemma prune_fold:
  "(case foldl (prune_step old_c config log_prefix) (c, k, l) xs of (c', k', l') \<Rightarrow> (c', k')) =
     (c\<lparr>replicas := replicas c |-| ffilter (\<lambda>srv. srv |\<notin>| all_replicas config \<and> srv |\<notin>| voters c \<and>
            (case temp_voters c of None \<Rightarrow> True | Some tv \<Rightarrow> srv |\<notin>| tv)) (fset_of_list xs)\<rparr>,
      k \<or> (case primary old_c of None \<Rightarrow> False | Some p \<Rightarrow> server p \<in> set xs \<and> server p |\<notin>| all_replicas config \<and>
              server p |\<notin>| voters c \<and>
            (case temp_voters c of None \<Rightarrow> True | Some tv \<Rightarrow> server p |\<notin>| tv)))"
proof (induction xs arbitrary: c k l)
  case Nil
  have "ffilter (\<lambda>srv. srv |\<notin>| all_replicas config \<and> srv |\<notin>| voters c \<and>
            (case temp_voters c of None \<Rightarrow> True | Some tv \<Rightarrow> srv |\<notin>| tv)) {||} = {||}" by auto
  then show ?case by (simp split: option.splits)
next
  case (Cons x xs)
  obtain c1 k1 l1 where step: "prune_step old_c config log_prefix (c, k, l) x = (c1, k1, l1)"
    by (cases "prune_step old_c config log_prefix (c, k, l) x") auto
  have frame: "voters c1 = voters c" "temp_voters c1 = temp_voters c"
    using step by (auto simp: prune_step_def Let_def split: if_splits)
  have IH: "(case foldl (prune_step old_c config log_prefix) (c1, k1, l1) xs of (c', k', l') \<Rightarrow> (c', k')) =
     (c1\<lparr>replicas := replicas c1 |-| ffilter (\<lambda>srv. srv |\<notin>| all_replicas config \<and> srv |\<notin>| voters c1 \<and>
            (case temp_voters c1 of None \<Rightarrow> True | Some tv \<Rightarrow> srv |\<notin>| tv)) (fset_of_list xs)\<rparr>,
      k1 \<or> (case primary old_c of None \<Rightarrow> False | Some p \<Rightarrow> server p \<in> set xs \<and> server p |\<notin>| all_replicas config \<and>
              server p |\<notin>| voters c1 \<and>
            (case temp_voters c1 of None \<Rightarrow> True | Some tv \<Rightarrow> server p |\<notin>| tv)))"
    by (rule Cons.IH)
  let ?P = "\<lambda>srv. srv |\<notin>| all_replicas config \<and> srv |\<notin>| voters c \<and>
            (case temp_voters c of None \<Rightarrow> True | Some tv \<Rightarrow> srv |\<notin>| tv)"
  have c1: "c1 = (if ?P x then c\<lparr>replicas := replicas c |-| {|x|}\<rparr> else c)"
    using step by (auto simp: prune_step_def Let_def split: if_splits)
  have k1: "k1 = (k \<or> (?P x \<and> (case primary old_c of None \<Rightarrow> False | Some p \<Rightarrow> server p = x)))"
    using step by (auto simp: prune_step_def Let_def split: if_splits option.splits)
  have reps: "replicas c1 |-| ffilter ?P (fset_of_list xs) = replicas c |-| ffilter ?P (fset_of_list (x # xs))"
    unfolding c1 by auto
  have c_eq: "c1\<lparr>replicas := replicas c1 |-| ffilter ?P (fset_of_list xs)\<rparr>
        = c\<lparr>replicas := replicas c |-| ffilter ?P (fset_of_list (x # xs))\<rparr>"
    unfolding reps[symmetric] unfolding c1 by simp
  have "foldl (prune_step old_c config log_prefix) (c, k, l) (x # xs)
        = foldl (prune_step old_c config log_prefix) (c1, k1, l1) xs"
    by (simp add: step)
  then have "(case foldl (prune_step old_c config log_prefix) (c, k, l) (x # xs) of
               (c', k', l') \<Rightarrow> (c', k')) =
     (c1\<lparr>replicas := replicas c1 |-| ffilter ?P (fset_of_list xs)\<rparr>,
      k1 \<or> (case primary old_c of None \<Rightarrow> False | Some p \<Rightarrow> server p \<in> set xs \<and> ?P (server p)))"
    using IH[unfolded frame] by simp
  also have "\<dots> = (c\<lparr>replicas := replicas c |-| ffilter ?P (fset_of_list (x # xs))\<rparr>,
      k \<or> (case primary old_c of None \<Rightarrow> False | Some p \<Rightarrow> server p \<in> set (x # xs) \<and> ?P (server p)))"
    unfolding c_eq k1 by (auto split: option.splits)
  finally show ?case .
qed

lemma prune_replicas_result:
  "(case prune_replicas old_c config log_prefix (c, l) of (c', k', l') \<Rightarrow> (c', k')) =
     (c\<lparr>replicas := replicas c |-| ffilter (\<lambda>srv. srv |\<notin>| all_replicas config \<and> srv |\<notin>| voters c \<and>
            (case temp_voters c of None \<Rightarrow> True | Some tv \<Rightarrow> srv |\<notin>| tv)) (replicas old_c)\<rparr>,
      (case primary old_c of None \<Rightarrow> False | Some p \<Rightarrow> server p |\<in>| replicas old_c \<and> server p |\<notin>| all_replicas config \<and>
              server p |\<notin>| voters c \<and>
            (case temp_voters c of None \<Rightarrow> True | Some tv \<Rightarrow> server p |\<notin>| tv)))"
proof -
  have "fset_of_list (sorted_list_of_fset (replicas old_c)) = replicas old_c"
    by (simp add: fset_eq_iff fset_of_list.rep_eq sorted_list_of_fset.rep_eq)
  then show ?thesis
    unfolding prune_replicas_def prod.case prune_fold
    by (auto simp: sorted_list_of_fset.rep_eq split: option.splits)
qed

lemma visible_fold:
  "foldl (\<lambda>visible_voters srv.
        if srv |\<notin>| voters new_c \<and>
           (case temp_voters new_c of None \<Rightarrow> True | Some tv \<Rightarrow> srv |\<notin>| tv)
        then visible_voters
        else if invisible_to_majority_of_set srv (voters new_c) connections_map
        then visible_voters
        else if (case temp_voters new_c of
                   None \<Rightarrow> False
                 | Some tv \<Rightarrow> invisible_to_majority_of_set srv tv connections_map)
        then visible_voters
        else finsert srv visible_voters) A xs
   = A |\<union>| ffilter (\<lambda>srv. (srv |\<in>| voters new_c \<or> (case temp_voters new_c of None \<Rightarrow> False | Some tv \<Rightarrow> srv |\<in>| tv))
        \<and> \<not> invisible_to_majority_of_set srv (voters new_c) connections_map
        \<and> (case temp_voters new_c of
                   None \<Rightarrow> True
                 | Some tv \<Rightarrow> \<not> invisible_to_majority_of_set srv tv connections_map)) (fset_of_list xs)"
proof (induction xs arbitrary: A)
  case Nil
  show ?case by auto
next
  case (Cons x xs)
  show ?case
    unfolding foldl_Cons Cons.IH
    by (auto split: option.splits)
qed

lemma compute_visible_voters_eq:
  "compute_visible_voters new_c connections_map =
    ffilter (\<lambda>srv. (srv |\<in>| voters new_c \<or> (case temp_voters new_c of None \<Rightarrow> False | Some tv \<Rightarrow> srv |\<in>| tv))
        \<and> \<not> invisible_to_majority_of_set srv (voters new_c) connections_map
        \<and> (case temp_voters new_c of
                   None \<Rightarrow> True
                 | Some tv \<Rightarrow> \<not> invisible_to_majority_of_set srv tv connections_map)) (replicas new_c)"
proof -
  have "fset_of_list (sorted_list_of_fset (replicas new_c)) = replicas new_c"
    by (simp add: fset_eq_iff fset_of_list.rep_eq sorted_list_of_fset.rep_eq)
  then show ?thesis
    unfolding compute_visible_voters_def visible_fold by simp
qed

lemma prune_replicas_silent:
  "(case prune_replicas old_c config log_prefix (c, l) of (c', k', l') \<Rightarrow> (c', k')) =
   (case prune_replicas old_c config [] (c, []) of (c', k', l') \<Rightarrow> (c', k'))"
  unfolding prune_replicas_result ..

lemma begin_voter_change_silent:
  "fst (begin_voter_change old_c cvr acks log_prefix (c, l)) =
   fst (begin_voter_change old_c cvr acks [] (c, []))"
  unfolding begin_voter_change_fst ..

lemma commit_voter_change_silent:
  "map_sum id fst (commit_voter_change old_c acks log_prefix (c, l)) =
   map_sum id fst (commit_voter_change old_c acks [] (c, []))"
  unfolding commit_voter_change_fst ..

lemma elect_primary_fst:
  "map_sum id fst (elect_primary old_c config acks visible_voters log_prefix (c, l)) =
     (if primary old_c = None then
        (case collect_candidates acks (sorted_list_of_fset (voters c)) [] of
           Inl e \<Rightarrow> Inl e
         | Inr unsorted \<Rightarrow>
             Inr (pick_primary config acks visible_voters
                    (eligible_loop (sort unsorted) visible_voters (fcard (voters c)) 0 []) c))
      else Inr c)"
proof (cases "primary old_c")
  case (Some p)
  then show ?thesis by (simp add: elect_primary_def)
next
  case True: None
  show ?thesis
  proof (cases "collect_candidates acks (sorted_list_of_fset (voters c)) []")
    case (Inl e)
    then show ?thesis using True by (simp add: elect_primary_def)
  next
    case (Inr unsorted)
    let ?c = "pick_primary config acks visible_voters
                    (eligible_loop (sort unsorted) visible_voters (fcard (voters c)) 0 []) c"
    have "map_sum id fst (case primary ?c of
                   None \<Rightarrow> Inr (?c, l)
                 | Some p \<Rightarrow> Inr (?c, logINF log_prefix (Selected_as_primary (server p)) l))
          = (Inr ?c :: error + contract_t)"
      by (cases "primary ?c") simp_all
    then show ?thesis
      unfolding elect_primary_def prod.case Let_def Inr sum.case using True by simp
  qed
qed

lemma elect_primary_silent:
  "map_sum id fst (elect_primary old_c config acks visible_voters log_prefix (c, l)) =
   map_sum id fst (elect_primary old_c config acks visible_voters [] (c, []))"
  unfolding elect_primary_fst ..

lemma with_log_fst: "map_sum id fst (with_log l r) = r"
  by (cases r) (simp_all add: with_log_def)

lemma update_hand_over_silent:
  "map_sum id fst (update_hand_over old_p config acks visible_voters log_prefix (c, l)) =
   map_sum id fst (update_hand_over old_p config acks visible_voters [] (c, []))"
  unfolding update_hand_over_def prod.case by (simp add: with_log_fst)

lemma handle_existing_primary_silent:
  "map_sum id fst (handle_existing_primary old_c config acks visible_voters k log_prefix (c, l)) =
   map_sum id fst (handle_existing_primary old_c config acks visible_voters k [] (c, []))"
proof (cases "primary old_c")
  case None
  then show ?thesis by (simp add: handle_existing_primary_def)
next
  case (Some old_p)
  show ?thesis
    unfolding handle_existing_primary_def Some option.case prod.case Let_def
    using update_hand_over_silent[of old_p config acks visible_voters log_prefix c]
    by simp
qed

lemma calculate_contract_commit_fails:
  assumes "begin_voter_change old_c (voting_replicas config) acks log_prefix
             (old_c\<lparr>replicas := replicas old_c |\<union>| all_replicas config\<rparr>, []) = (c1, l1)"
    and "commit_voter_change old_c acks log_prefix (c1, l1) = Inl e"
  shows "calculate_contract old_c config acks connections_map log_prefix = Inl e"
  unfolding calculate_contract_def Let_def assms sum.case ..

lemma calculate_contract_elect_fails:
  assumes "begin_voter_change old_c (voting_replicas config) acks log_prefix
             (old_c\<lparr>replicas := replicas old_c |\<union>| all_replicas config\<rparr>, []) = (c1, l1)"
    and "commit_voter_change old_c acks log_prefix (c1, l1) = Inr (c2, l2)"
    and "prune_replicas old_c config log_prefix (c2, l2) = (c3, k, l3)"
    and "elect_primary old_c config acks (compute_visible_voters c2 connections_map) log_prefix
           (c3, l3) = Inl e"
  shows "calculate_contract old_c config acks connections_map log_prefix = Inl e"
  unfolding calculate_contract_def Let_def assms sum.case prod.case ..

lemma calculate_contract_steps:
  assumes "begin_voter_change old_c (voting_replicas config) acks log_prefix
             (old_c\<lparr>replicas := replicas old_c |\<union>| all_replicas config\<rparr>, []) = (c1, l1)"
    and "commit_voter_change old_c acks log_prefix (c1, l1) = Inr (c2, l2)"
    and "prune_replicas old_c config log_prefix (c2, l2) = (c3, k, l3)"
    and "elect_primary old_c config acks (compute_visible_voters c2 connections_map) log_prefix
           (c3, l3) = Inr (c4, l4)"
  shows "calculate_contract old_c config acks connections_map log_prefix =
         handle_existing_primary old_c config acks (compute_visible_voters c2 connections_map)
           k log_prefix (c4, l4)"
  unfolding calculate_contract_def Let_def assms sum.case prod.case ..

lemma calculate_contract_unfold:
  "map_sum id fst (calculate_contract old_c config acks connections_map log_prefix) =
     (let c0 = old_c\<lparr>replicas := replicas old_c |\<union>| all_replicas config\<rparr>;
          c1 = fst (begin_voter_change old_c (voting_replicas config) acks [] (c0, []))
      in case map_sum id fst (commit_voter_change old_c acks [] (c1, [])) of
           Inl e \<Rightarrow> Inl e
         | Inr c2 \<Rightarrow>
            (let visible_voters = compute_visible_voters c2 connections_map
             in case (case prune_replicas old_c config [] (c2, []) of (c', k', l') \<Rightarrow> (c', k')) of
                  (c3, should_kill_primary) \<Rightarrow>
                   (case map_sum id fst (elect_primary old_c config acks visible_voters [] (c3, [])) of
                      Inl e \<Rightarrow> Inl e
                    | Inr c4 \<Rightarrow>
                        map_sum id fst (handle_existing_primary old_c config acks visible_voters
                          should_kill_primary [] (c4, [])))))"
  (is "_ = ?R")
proof -
  let ?c0 = "old_c\<lparr>replicas := replicas old_c |\<union>| all_replicas config\<rparr>"
  obtain c1 l1 where b: "begin_voter_change old_c (voting_replicas config) acks log_prefix (?c0, []) = (c1, l1)"
    by (cases "begin_voter_change old_c (voting_replicas config) acks log_prefix (?c0, [])") auto
  have c1: "fst (begin_voter_change old_c (voting_replicas config) acks [] (?c0, [])) = c1"
    using begin_voter_change_silent[of old_c "voting_replicas config" acks log_prefix ?c0 "[]"] b by simp
  show ?thesis
  proof (cases "commit_voter_change old_c acks log_prefix (c1, l1)")
    case (Inl e)
    then have cm: "map_sum id fst (commit_voter_change old_c acks [] (c1, [])) = Inl e"
      using commit_voter_change_silent[of old_c acks log_prefix c1 l1] by simp
    have "?R = Inl e"
      unfolding Let_def c1 cm sum.case ..
    then show ?thesis
      using calculate_contract_commit_fails[OF b Inl] by simp
  next
    case (Inr r2)
    obtain c2 l2 where r2: "r2 = (c2, l2)" by (cases r2) auto
    note cmL = Inr[unfolded r2]
    have cm: "map_sum id fst (commit_voter_change old_c acks [] (c1, [])) = Inr c2"
      using commit_voter_change_silent[of old_c acks log_prefix c1 l1] cmL by simp
    let ?vis = "compute_visible_voters c2 connections_map"
    obtain c3 k l3 where p: "prune_replicas old_c config log_prefix (c2, l2) = (c3, k, l3)"
      by (cases "prune_replicas old_c config log_prefix (c2, l2)") auto
    have pr: "(case prune_replicas old_c config [] (c2, []) of (c', k', l') \<Rightarrow> (c', k')) = (c3, k)"
      using prune_replicas_silent[of old_c config log_prefix c2 l2] p by simp
    show ?thesis
    proof (cases "elect_primary old_c config acks ?vis log_prefix (c3, l3)")
      case (Inl e)
      then have e: "map_sum id fst (elect_primary old_c config acks ?vis [] (c3, [])) = Inl e"
        using elect_primary_silent[of old_c config acks ?vis log_prefix c3 l3] by simp
      have "?R = Inl e"
        unfolding Let_def c1 cm sum.case pr prod.case e ..
      then show ?thesis
        using calculate_contract_elect_fails[OF b cmL p Inl] by simp
    next
      case el: (Inr r4)
      obtain c4 l4 where r4: "r4 = (c4, l4)" by (cases r4) auto
      note elL = el[unfolded r4]
      have e: "map_sum id fst (elect_primary old_c config acks ?vis [] (c3, [])) = Inr c4"
        using elect_primary_silent[of old_c config acks ?vis log_prefix c3 l3] elL by simp
      have "?R =
            map_sum id fst (handle_existing_primary old_c config acks ?vis k [] (c4, []))"
        unfolding Let_def c1 cm sum.case pr prod.case e ..
      then show ?thesis
        using calculate_contract_steps[OF b cmL p elL]
          handle_existing_primary_silent[of old_c config acks ?vis k log_prefix c4 l4]
        by simp
    qed
  qed
qed

lemma calculate_contract_log_prefix_irrelevant:
  "map_sum id fst (calculate_contract old_c config acks connections_map log_prefix) =
   map_sum id fst (calculate_contract old_c config acks connections_map [])"
  unfolding calculate_contract_unfold ..

lemma calculate_contract_InrE:
  assumes "calculate_contract old_c config acks connections_map log_prefix = Inr (new_c, log)"
  obtains c1 l1 c2 l2 c3 k l3 c4 l4 where
    "begin_voter_change old_c (voting_replicas config) acks log_prefix
       (old_c\<lparr>replicas := replicas old_c |\<union>| all_replicas config\<rparr>, []) = (c1, l1)"
    "commit_voter_change old_c acks log_prefix (c1, l1) = Inr (c2, l2)"
    "prune_replicas old_c config log_prefix (c2, l2) = (c3, k, l3)"
    "elect_primary old_c config acks (compute_visible_voters c2 connections_map) log_prefix
       (c3, l3) = Inr (c4, l4)"
    "handle_existing_primary old_c config acks (compute_visible_voters c2 connections_map)
       k log_prefix (c4, l4) = Inr (new_c, log)"
proof -
  let ?c0 = "old_c\<lparr>replicas := replicas old_c |\<union>| all_replicas config\<rparr>"
  obtain c1 l1 where b: "begin_voter_change old_c (voting_replicas config) acks log_prefix (?c0, []) = (c1, l1)"
    by (cases "begin_voter_change old_c (voting_replicas config) acks log_prefix (?c0, [])") auto
  show thesis
  proof (cases "commit_voter_change old_c acks log_prefix (c1, l1)")
    case (Inl e)
    with calculate_contract_commit_fails[OF b Inl] assms show thesis by simp
  next
    case (Inr r2)
    obtain c2 l2 where r2: "r2 = (c2, l2)" by (cases r2) auto
    note cm = Inr[unfolded r2]
    let ?vis = "compute_visible_voters c2 connections_map"
    obtain c3 k l3 where p: "prune_replicas old_c config log_prefix (c2, l2) = (c3, k, l3)"
      by (cases "prune_replicas old_c config log_prefix (c2, l2)") auto
    show thesis
    proof (cases "elect_primary old_c config acks ?vis log_prefix (c3, l3)")
      case (Inl e)
      with calculate_contract_elect_fails[OF b cm p Inl] assms show thesis by simp
    next
      case el: (Inr r4)
      obtain c4 l4 where r4: "r4 = (c4, l4)" by (cases r4) auto
      note e = el[unfolded r4]
      have "handle_existing_primary old_c config acks ?vis k log_prefix (c4, l4) = Inr (new_c, log)"
        using calculate_contract_steps[OF b cm p e] assms by simp
      with b cm p e show thesis by (rule that)
    qed
  qed
qed

section \<open>What each step does to the working copy\<close>

lemma begin_voter_changeD:
  assumes "begin_voter_change old_c cvr acks log_prefix (c0, l0) = (c1, l1)"
  shows "c1 = (if temp_voters old_c = None \<and> voters old_c \<noteq> cvr \<and>
         fcard (ffilter (\<lambda>srv. case acks srv of
                     None \<Rightarrow> False
                   | Some a \<Rightarrow> state a = secondary_streaming \<or>
                       (case primary old_c of None \<Rightarrow> False | Some p \<Rightarrow> server p = srv)) cvr)
           > fcard cvr div 2
      then c0\<lparr>temp_voters := Some cvr\<rparr> else c0)"
  using begin_voter_change_fst[of old_c cvr acks log_prefix c0 l0] assms by simp

lemma commit_voter_changeD:
  assumes "commit_voter_change old_c acks log_prefix (c1, l1) = Inr (c2, l2)"
  shows "if temp_voters old_c \<noteq> None \<and>
            (\<exists>p a. primary old_c = Some p \<and> acks (server p) = Some a \<and> state a = primary_ready)
         then \<exists>tv. temp_voters c1 = Some tv \<and> c2 = c1\<lparr>voters := tv, temp_voters := None\<rparr>
         else c2 = c1"
  using commit_voter_change_fst[of old_c acks log_prefix c1 l1] assms
  by (auto split: option.splits if_splits)

lemma prune_replicasD:
  assumes "prune_replicas old_c config log_prefix (c2, l2) = (c3, k, l3)"
  shows "c3 = c2\<lparr>replicas := replicas c2 |-| ffilter (\<lambda>srv. srv |\<notin>| all_replicas config \<and> srv |\<notin>| voters c2 \<and>
            (case temp_voters c2 of None \<Rightarrow> True | Some tv \<Rightarrow> srv |\<notin>| tv)) (replicas old_c)\<rparr>"
    and "k = (case primary old_c of None \<Rightarrow> False | Some p \<Rightarrow> server p |\<in>| replicas old_c \<and> server p |\<notin>| all_replicas config \<and>
              server p |\<notin>| voters c2 \<and>
            (case temp_voters c2 of None \<Rightarrow> True | Some tv \<Rightarrow> server p |\<notin>| tv))"
  using prune_replicas_result[of old_c config log_prefix c2 l2] assms by simp_all

lemma elect_primaryD:
  assumes "elect_primary old_c config acks visible_voters log_prefix (c3, l3) = Inr (c4, l4)"
  shows "case primary old_c of
           Some p \<Rightarrow> c4 = c3
         | None \<Rightarrow> (\<exists>unsorted. collect_candidates acks (sorted_list_of_fset (voters c3)) [] = Inr unsorted \<and>
              c4 = pick_primary config acks visible_voters
                    (eligible_loop (sort unsorted) visible_voters (fcard (voters c3)) 0 []) c3)"
proof (cases "primary old_c")
  case None
  have *: "(case collect_candidates acks (sorted_list_of_fset (voters c3)) [] of
           Inl e \<Rightarrow> Inl e
         | Inr unsorted \<Rightarrow>
             Inr (pick_primary config acks visible_voters
                    (eligible_loop (sort unsorted) visible_voters (fcard (voters c3)) 0 []) c3)) = Inr c4"
    using elect_primary_fst[of old_c config acks visible_voters log_prefix c3 l3] assms None by simp
  show ?thesis
  proof (cases "collect_candidates acks (sorted_list_of_fset (voters c3)) []")
    case (Inl e)
    with * show ?thesis by simp
  next
    case (Inr unsorted)
    with * None show ?thesis by simp
  qed
next
  case (Some p)
  then show ?thesis
    using elect_primary_fst[of old_c config acks visible_voters log_prefix c3 l3] assms by simp
qed

lemma pick_primary_frame:
  "replicas (pick_primary config acks vis el c) = replicas c"
  "voters (pick_primary config acks vis el c) = voters c"
  "temp_voters (pick_primary config acks vis el c) = temp_voters c"
  "branch (pick_primary config acks vis el c) = branch c"
  by (simp_all add: pick_primary_def)

lemma set_hand_overD:
  assumes "set_hand_over h c = Inr c'"
  shows "\<exists>p. primary c = Some p \<and> c' = c\<lparr>primary := Some (p\<lparr>hand_over := h\<rparr>)\<rparr>"
  using assms by (auto simp: set_hand_over_def split: option.splits)

lemma with_logD:
  assumes "with_log l r = Inr (c', l')"
  shows "r = Inr c'"
  using assms by (cases r) (auto simp: with_log_def)

lemma handle_existing_primary_None:
  assumes "primary old_c = None"
  shows "handle_existing_primary old_c config acks vis k log_prefix st = Inr st"
  using assms by (cases st) (simp add: handle_existing_primary_def)

lemma update_hand_over_cases:
  assumes "update_hand_over old_p config acks vis log_prefix (c4, l4) = Inr (new_c, log)"
  shows "new_c = c4\<lparr>primary := None\<rparr> \<or> new_c = c4 \<or>
         (\<exists>p h. primary c4 = Some p \<and> new_c = c4\<lparr>primary := Some (p\<lparr>hand_over := h\<rparr>)\<rparr>)"
proof -
  have sh: "\<And>h l. with_log l (set_hand_over h c4) = Inr (new_c, log) \<Longrightarrow> ?thesis"
    using set_hand_overD with_logD by blast
  show ?thesis
    using assms unfolding update_hand_over_def prod.case
    by (simp split: if_splits) (use sh in blast)+
qed

lemma handle_existing_primary_cases:
  assumes "handle_existing_primary old_c config acks vis k log_prefix (c4, l4) = Inr (new_c, log)"
    and "primary old_c = Some old_p"
  shows "new_c = c4\<lparr>primary := None\<rparr> \<or> new_c = c4 \<or>
         (\<exists>p h. primary c4 = Some p \<and> new_c = c4\<lparr>primary := Some (p\<lparr>hand_over := h\<rparr>)\<rparr>)"
proof (cases "\<not> k \<and> server old_p |\<notin>| vis")
  case True
  then show ?thesis
    using assms(1) unfolding handle_existing_primary_def assms(2) option.case prod.case Let_def
    by simp
next
  case False
  show ?thesis
  proof (cases k)
    case True
    then show ?thesis
      using assms(1) unfolding handle_existing_primary_def assms(2) option.case prod.case Let_def
      by simp
  next
    case nk: False
    then have "update_hand_over old_p config acks vis log_prefix (c4, l4) = Inr (new_c, log)"
      using False assms(1) unfolding handle_existing_primary_def assms(2) option.case prod.case Let_def
      by simp
    then show ?thesis by (rule update_hand_over_cases)
  qed
qed

lemma handle_existing_primary_frame:
  assumes "handle_existing_primary old_c config acks vis k log_prefix (c4, l4) = Inr (new_c, log)"
  shows "replicas new_c = replicas c4" "voters new_c = voters c4"
    "temp_voters new_c = temp_voters c4" "branch new_c = branch c4"
proof -
  have "replicas new_c = replicas c4 \<and> voters new_c = voters c4 \<and>
    temp_voters new_c = temp_voters c4 \<and> branch new_c = branch c4"
  proof (cases "primary old_c")
    case None
    then show ?thesis using assms handle_existing_primary_None by simp
  next
    case (Some old_p)
    from handle_existing_primary_cases[OF assms Some] show ?thesis by auto
  qed
  then show "replicas new_c = replicas c4" "voters new_c = voters c4"
    "temp_voters new_c = temp_voters c4" "branch new_c = branch c4" by simp_all
qed

section \<open>The calculator returns\<close>

lemma commit_voter_change_returns:
  assumes "temp_voters old_c \<noteq> None \<longrightarrow> temp_voters c1 \<noteq> None"
  shows "\<exists>r. commit_voter_change old_c acks log_prefix (c1, l1) = Inr r"
  using assms by (auto simp: commit_voter_change_def split: option.splits)

lemma collect_candidates_returns:
  assumes "\<forall>s\<in>set xs. \<forall>a. acks s = Some a \<and> state a = secondary_need_primary \<longrightarrow> version a \<noteq> None"
  shows "\<exists>r. collect_candidates acks xs acc = Inr r"
  using assms by (induction xs arbitrary: acc) (auto split: option.splits)

lemma elect_primary_returns:
  assumes "primary old_c = None \<longrightarrow> (\<forall>s a. s |\<in>| voters c3 \<and> acks s = Some a \<and>
             state a = secondary_need_primary \<longrightarrow> version a \<noteq> None)"
  shows "\<exists>r. elect_primary old_c config acks vis log_prefix (c3, l3) = Inr r"
proof (cases "primary old_c")
  case None
  with assms have "\<forall>s\<in>set (sorted_list_of_fset (voters c3)). \<forall>a. acks s = Some a \<and>
             state a = secondary_need_primary \<longrightarrow> version a \<noteq> None"
    by (auto simp: sorted_list_of_fset.rep_eq)
  from collect_candidates_returns[OF this, of "[]"]
  obtain u where u: "collect_candidates acks (sorted_list_of_fset (voters c3)) [] = Inr u" by blast
  have "map_sum id fst (elect_primary old_c config acks vis log_prefix (c3, l3)) =
        Inr (pick_primary config acks vis (eligible_loop (sort u) vis (fcard (voters c3)) 0 []) c3)"
    unfolding elect_primary_fst using None u by simp
  then show ?thesis
    by (cases "elect_primary old_c config acks vis log_prefix (c3, l3)") auto
next
  case (Some p)
  then show ?thesis by (simp add: elect_primary_def)
qed

lemma update_hand_over_returns:
  assumes "primary c4 \<noteq> None"
  shows "\<exists>r. update_hand_over old_p config acks vis log_prefix (c4, l4) = Inr r"
proof -
  have sh: "\<And>h l. \<exists>r. with_log l (set_hand_over h c4) = Inr r"
    using assms by (auto simp: with_log_def set_hand_over_def)
  show ?thesis
    unfolding update_hand_over_def prod.case using sh by simp
qed

lemma handle_existing_primary_returns:
  assumes "primary old_c \<noteq> None \<longrightarrow> primary c4 \<noteq> None"
  shows "\<exists>r. handle_existing_primary old_c config acks vis k log_prefix (c4, l4) = Inr r"
proof (cases "primary old_c")
  case None
  then show ?thesis by (simp add: handle_existing_primary_None)
next
  case (Some old_p)
  with assms have "primary c4 \<noteq> None" by simp
  from update_hand_over_returns[OF this]
  show ?thesis
    unfolding handle_existing_primary_def Some option.case prod.case Let_def
    by (simp split: if_splits prod.splits)
qed

lemma calculate_contract_returns:
  assumes "primary old_c = None \<longrightarrow> (\<forall>s a. s |\<in>| voters old_c \<and> acks s = Some a \<and>
             state a = secondary_need_primary \<longrightarrow> version a \<noteq> None)"
  shows "\<exists>new_c log. calculate_contract old_c config acks connections_map log_prefix = Inr (new_c, log)"
proof -
  let ?c0 = "old_c\<lparr>replicas := replicas old_c |\<union>| all_replicas config\<rparr>"
  obtain c1 l1 where b: "begin_voter_change old_c (voting_replicas config) acks log_prefix (?c0, []) = (c1, l1)"
    by (cases "begin_voter_change old_c (voting_replicas config) acks log_prefix (?c0, [])") auto
  note c1 = begin_voter_changeD[OF b]
  have t1: "temp_voters old_c \<noteq> None \<longrightarrow> temp_voters c1 \<noteq> None"
    unfolding c1 by auto
  have v1: "voters c1 = voters old_c" and p1: "primary c1 = primary old_c"
    unfolding c1 by simp_all
  obtain c2 l2 where cm: "commit_voter_change old_c acks log_prefix (c1, l1) = Inr (c2, l2)"
    using commit_voter_change_returns[OF t1, of acks log_prefix l1] by auto
  note c2 = commit_voter_changeD[OF cm]
  have p2: "primary c2 = primary old_c"
    using c2 p1 by (auto split: if_splits)
  have v2: "primary old_c = None \<longrightarrow> voters c2 = voters old_c"
    using c2 v1 by (auto split: if_splits)
  obtain c3 k l3 where p: "prune_replicas old_c config log_prefix (c2, l2) = (c3, k, l3)"
    by (cases "prune_replicas old_c config log_prefix (c2, l2)") auto
  note c3 = prune_replicasD(1)[OF p]
  have p3: "primary c3 = primary old_c" and v3: "voters c3 = voters c2"
    by (subst c3, simp add: p2)+
  let ?vis = "compute_visible_voters c2 connections_map"
  have "primary old_c = None \<longrightarrow> (\<forall>s a. s |\<in>| voters c3 \<and> acks s = Some a \<and>
             state a = secondary_need_primary \<longrightarrow> version a \<noteq> None)"
    using assms v2 v3 by simp
  from elect_primary_returns[OF this, of config ?vis log_prefix l3]
  obtain c4 l4 where e: "elect_primary old_c config acks ?vis log_prefix (c3, l3) = Inr (c4, l4)"
    by auto
  have "primary old_c \<noteq> None \<longrightarrow> primary c4 \<noteq> None"
    using elect_primaryD[OF e] p3 by (auto split: option.splits)
  from handle_existing_primary_returns[OF this, of config acks ?vis k log_prefix l4]
  show ?thesis
    unfolding calculate_contract_steps[OF b cm p e] by auto
qed

lemma calculate_contract_summary:
  assumes cc: "calculate_contract old_c config acks connections_map log_prefix = Inr (new_c, log)"
  defines "begins \<equiv> temp_voters old_c = None \<and> voters old_c \<noteq> voting_replicas config \<and>
         fcard (ffilter (\<lambda>srv. case acks srv of
                     None \<Rightarrow> False
                   | Some a \<Rightarrow> state a = secondary_streaming \<or>
                       (case primary old_c of None \<Rightarrow> False | Some p \<Rightarrow> server p = srv))
                  (voting_replicas config))
           > fcard (voting_replicas config) div 2"
    and "commits \<equiv> temp_voters old_c \<noteq> None \<and>
            (\<exists>p a. primary old_c = Some p \<and> acks (server p) = Some a \<and> state a = primary_ready)"
  defines "c2 \<equiv> old_c\<lparr>replicas := replicas old_c |\<union>| all_replicas config,
                     voters := (if commits then the (temp_voters old_c) else voters old_c),
                     temp_voters := (if begins then Some (voting_replicas config)
                                     else if commits then None else temp_voters old_c)\<rparr>"
  defines "pruned \<equiv> ffilter (\<lambda>srv. srv |\<notin>| all_replicas config \<and> srv |\<notin>| voters c2 \<and>
            (case temp_voters c2 of None \<Rightarrow> True | Some tv \<Rightarrow> srv |\<notin>| tv)) (replicas old_c)"
  shows "branch new_c = branch old_c"
    and "voters new_c = voters c2"
    and "temp_voters new_c = temp_voters c2"
    and "replicas new_c = replicas c2 |-| pruned"
    and "primary old_c = Some P \<Longrightarrow>
           primary new_c = None \<or> (\<exists>h. primary new_c = Some (P\<lparr>hand_over := h\<rparr>))"
    and "primary old_c = Some P \<Longrightarrow> server P |\<in>| pruned \<Longrightarrow> primary new_c = None"
    and "primary old_c = None \<Longrightarrow>
           \<exists>unsorted. collect_candidates acks (sorted_list_of_fset (voters old_c)) [] = Inr unsorted \<and>
             primary new_c = primary (pick_primary config acks (compute_visible_voters c2 connections_map)
                    (eligible_loop (sort unsorted) (compute_visible_voters c2 connections_map)
                       (fcard (voters old_c)) 0 []) old_c)"
proof -
  let ?c0 = "old_c\<lparr>replicas := replicas old_c |\<union>| all_replicas config\<rparr>"
  from cc obtain c1 l1 c2' l2 c3 k l3 c4 l4 where
    b: "begin_voter_change old_c (voting_replicas config) acks log_prefix (?c0, []) = (c1, l1)" and
    cm: "commit_voter_change old_c acks log_prefix (c1, l1) = Inr (c2', l2)" and
    p: "prune_replicas old_c config log_prefix (c2', l2) = (c3, k, l3)" and
    e: "elect_primary old_c config acks (compute_visible_voters c2' connections_map) log_prefix
       (c3, l3) = Inr (c4, l4)" and
    h: "handle_existing_primary old_c config acks (compute_visible_voters c2' connections_map)
       k log_prefix (c4, l4) = Inr (new_c, log)"
    by (rule calculate_contract_InrE)
  have c1: "c1 = (if begins then ?c0\<lparr>temp_voters := Some (voting_replicas config)\<rparr> else ?c0)"
    using begin_voter_changeD[OF b] unfolding begins_def by simp
  have nb: "begins \<Longrightarrow> \<not> commits" unfolding begins_def commits_def by simp
  have c2': "c2' = c2"
  proof (cases commits)
    case True
    then have nbeg: "\<not> begins" using nb by auto
    from True obtain tv where tv: "temp_voters old_c = Some tv" unfolding commits_def by auto
    from commit_voter_changeD[OF cm] True
    obtain tv' where "temp_voters c1 = Some tv'" "c2' = c1\<lparr>voters := tv', temp_voters := None\<rparr>"
      unfolding commits_def by auto
    then show ?thesis
      unfolding c2_def c1 using True nbeg tv by simp
  next
    case False
    with commit_voter_changeD[OF cm] have "c2' = c1" unfolding commits_def by auto
    then show ?thesis
      unfolding c2_def c1 using False by simp
  qed
  note c3 = prune_replicasD(1)[OF p, unfolded c2', folded pruned_def]
  note k = prune_replicasD(2)[OF p, unfolded c2']
  note hf = handle_existing_primary_frame[OF h]
  have p2: "primary c2 = primary old_c" unfolding c2_def by simp
  have c4_frame: "replicas c4 = replicas c3 \<and> voters c4 = voters c3 \<and>
      temp_voters c4 = temp_voters c3 \<and> branch c4 = branch c3"
    using elect_primaryD[OF e] by (auto split: option.splits simp: pick_primary_frame)
  show "branch new_c = branch old_c"
    using hf c4_frame by (simp add: c3 c2_def)
  show "voters new_c = voters c2"
    using hf c4_frame by (simp add: c3)
  show "temp_voters new_c = temp_voters c2"
    using hf c4_frame by (simp add: c3)
  show "replicas new_c = replicas c2 |-| pruned"
    using hf c4_frame by (simp add: c3)
  {
    assume P: "primary old_c = Some P"
    then have c4: "c4 = c3" using elect_primaryD[OF e] by simp
    have p4: "primary c4 = Some P" unfolding c4 c3 using p2 P by simp
    have "P = P\<lparr>hand_over := hand_over P\<rparr>" by simp
    with handle_existing_primary_cases[OF h P] p4
    show "primary new_c = None \<or> (\<exists>h. primary new_c = Some (P\<lparr>hand_over := h\<rparr>))"
      by (elim disjE exE conjE) (simp, metis, auto)
    assume "server P |\<in>| pruned"
    then have "k" unfolding k pruned_def using P by auto
    then show "primary new_c = None"
      using h unfolding handle_existing_primary_def P option.case prod.case Let_def
      by (auto split: if_splits)
  }
  {
    assume N: "primary old_c = None"
    then have "\<not> commits" unfolding commits_def by simp
    then have v3: "voters c3 = voters old_c" unfolding c3 c2_def by simp
    from elect_primaryD[OF e] N obtain unsorted where
      u: "collect_candidates acks (sorted_list_of_fset (voters c3)) [] = Inr unsorted" and
      c4: "c4 = pick_primary config acks (compute_visible_voters c2' connections_map)
                    (eligible_loop (sort unsorted) (compute_visible_voters c2' connections_map)
                       (fcard (voters c3)) 0 []) c3"
      by auto
    have nc: "new_c = c4" using h handle_existing_primary_None[OF N] by simp
    have "primary c3 = primary old_c" unfolding c3 using p2 by simp
    then have "primary (pick_primary config acks vis el c3) = primary (pick_primary config acks vis el old_c)"
      for vis el
      by (simp add: pick_primary_def)
    then show "\<exists>unsorted. collect_candidates acks (sorted_list_of_fset (voters old_c)) [] = Inr unsorted \<and>
             primary new_c = primary (pick_primary config acks (compute_visible_voters c2 connections_map)
                    (eligible_loop (sort unsorted) (compute_visible_voters c2 connections_map)
                       (fcard (voters old_c)) 0 []) old_c)"
      using u c4 nc v3 c2' by auto
  }
qed

lemma more_than_half_iff: "(n::nat) > m div 2 \<longleftrightarrow> 2 * n > m"
  by presburger

section \<open>The election loops compute the specified election\<close>

lemma collect_candidates_eq:
  assumes "collect_candidates acks xs acc = Inr r"
  shows "r = acc @ concat (map (\<lambda>s. case acks s of
                              None \<Rightarrow> []
                            | Some a \<Rightarrow>
                                if state a = secondary_need_primary
                                then (case version a of None \<Rightarrow> [] | Some v \<Rightarrow> [(v, s)])
                                else []) xs)"
  using assms
proof (induction xs arbitrary: acc)
  case Nil
  then show ?case by simp
next
  case (Cons x xs)
  show ?case
  proof (cases "acks x")
    case None
    with Cons show ?thesis by simp
  next
    case (Some a)
    show ?thesis
    proof (cases "state a = secondary_need_primary")
      case False
      with Cons Some show ?thesis by simp
    next
      case True
      with Cons.prems Some obtain v where v: "version a = Some v"
        by (cases "version a") auto
      with Cons.prems Some True have "collect_candidates acks xs (acc @ [(v, x)]) = Inr r"
        by simp
      from Cons.IH[OF this] show ?thesis
        using Some True v by simp
    qed
  qed
qed

lemma collect_candidates_spec:
  assumes "collect_candidates acks (sorted_list_of_fset vs) [] = Inr unsorted"
  shows "sort unsorted = spec_candidates vs acks"
  using collect_candidates_eq[OF assms] by (simp add: spec_candidates_def)

lemma set_spec_candidates:
  fixes acks :: acks_t
  shows "set (spec_candidates vs acks) = set (concat (map (\<lambda>s. case acks s of
                              None \<Rightarrow> []
                            | Some a \<Rightarrow>
                                if state a = secondary_need_primary
                                then (case version a of None \<Rightarrow> [] | Some v \<Rightarrow> [(v, s)])
                                else [])
                       (sorted_list_of_fset vs)))"
  unfolding spec_candidates_def set_sort ..

lemma spec_candidates_servers:
  "snd ` set (spec_candidates vs acks) \<subseteq> fset vs"
proof
  fix s assume "s \<in> snd ` set (spec_candidates vs acks)"
  then obtain v where "(v, s) \<in> set (spec_candidates vs acks)" by auto
  then obtain x where x: "x \<in> set (sorted_list_of_fset vs)" and
    m: "(v, s) \<in> set (case acks x of
                              None \<Rightarrow> []
                            | Some a \<Rightarrow>
                                if state a = secondary_need_primary
                                then (case version a of None \<Rightarrow> [] | Some v \<Rightarrow> [(v, x)])
                                else [])"
    unfolding set_spec_candidates set_concat set_map by blast
  have "s = x"
  proof (cases "acks x")
    case None
    with m show ?thesis by simp
  next
    case (Some a)
    show ?thesis
    proof (cases "state a = secondary_need_primary")
      case False
      with Some m show ?thesis by simp
    next
      case True
      show ?thesis
      proof (cases "version a")
        case None
        with Some True m show ?thesis by simp
      next
        case (Some v')
        with \<open>acks x = Some a\<close> True m show ?thesis by simp
      qed
    qed
  qed
  with x show "s \<in> fset vs" by simp
qed

lemma sorted_fst_spec_candidates:
  "sorted (map fst (spec_candidates vs acks))"
proof -
  have "sorted (spec_candidates vs acks)"
    by (simp add: spec_candidates_def)
  then have "sorted_wrt (\<lambda>x y. fst x \<le> fst y) (spec_candidates vs acks)"
    by (rule sorted_wrt_mono_rel[rotated]) (auto simp: less_eq_prod_def)
  then show ?thesis
    by (simp add: sorted_wrt_map)
qed

lemma sorted_fst_nth_mono:
  assumes "sorted (map fst sc)" and "a \<le> b" and "b < length sc"
  shows "fst (sc ! a) \<le> fst (sc ! b)"
proof -
  have "map fst sc ! a \<le> map fst sc ! b"
    using assms by (intro sorted_nth_mono) simp_all
  then show ?thesis using assms by simp
qed

lemma filter_later_timestamps_empty:
  assumes "sorted (map fst sc)" and "i < k" and "k < length sc" and "fst (sc ! k) \<noteq> fst (sc ! i)"
  shows "filter (\<lambda>c. fst c = fst (sc ! i)) (drop k sc) = []"
proof -
  have lt: "fst (sc ! i) < fst (sc ! k)"
    using sorted_fst_nth_mono[OF assms(1), of i k] assms by simp
  have "fst c \<noteq> fst (sc ! i)" if "c \<in> set (drop k sc)" for c
  proof -
    from that obtain j where j: "j < length (drop k sc)" "c = drop k sc ! j"
      by (metis in_set_conv_nth)
    then have "c = sc ! (k + j)" "k + j < length sc" by simp_all
    then have "fst (sc ! k) \<le> fst c"
      using sorted_fst_nth_mono[OF assms(1), of k "k + j"] by simp
    with lt show ?thesis by simp
  qed
  then show ?thesis
    unfolding filter_empty_conv by blast
qed

lemma advance_up_to_date_count_eq:
  assumes "sorted (map fst sc)" and "i < k" and "k \<le> length sc"
  shows "advance_up_to_date_count sc i k =
         k + length (filter (\<lambda>c. fst c = fst (sc ! i)) (drop k sc))"
  using assms
proof (induction sc i k rule: advance_up_to_date_count.induct)
  case (1 sc i k)
  show ?case
  proof (cases "k < length sc \<and> fst (sc ! k) = fst (sc ! i)")
    case True
    then have d: "drop k sc = sc ! k # drop (Suc k) sc"
      by (simp add: Cons_nth_drop_Suc)
    have "advance_up_to_date_count sc i k = advance_up_to_date_count sc i (k + 1)"
      using True by (subst advance_up_to_date_count.simps) simp
    also have "\<dots> = (k + 1) + length (filter (\<lambda>c. fst c = fst (sc ! i)) (drop (k + 1) sc))"
      using True "1.prems" by (intro "1.IH") simp_all
    finally show ?thesis
      unfolding d using True by simp
  next
    case False
    have adv: "advance_up_to_date_count sc i k = k"
      using False by (subst advance_up_to_date_count.simps) auto
    have "filter (\<lambda>c. fst c = fst (sc ! i)) (drop k sc) = []"
    proof (cases "k < length sc")
      case False
      then show ?thesis by simp
    next
      case True
      with False have "fst (sc ! k) \<noteq> fst (sc ! i)" by simp
      with "1.prems" True show ?thesis
        by (intro filter_later_timestamps_empty)
    qed
    then show ?thesis using adv by simp
  qed
qed

lemma advance_up_to_date_count_spec:
  assumes "sorted (map fst sc)" and "i < length sc"
  shows "advance_up_to_date_count sc i (i + 1) = spec_up_to_date_count sc i"
  using advance_up_to_date_count_eq[OF assms(1), of i "i + 1"] assms(2)
  by (simp add: spec_up_to_date_count_def)

lemma eligible_loop_eq:
  assumes "sorted (map fst sc)"
  shows "eligible_loop sc vis n i acc =
         acc @ map (\<lambda>i. snd (sc ! i))
                 (filter (\<lambda>i. snd (sc ! i) |\<in>| vis \<and> 2 * spec_up_to_date_count sc i > n)
                    [i..<length sc])"
  using assms
proof (induction sc vis n i acc rule: eligible_loop.induct)
  case (1 sc vis n i acc)
  note srt = "1.prems"
  show ?case
  proof (cases "i < length sc")
    case False
    then show ?thesis by (subst eligible_loop.simps) simp
  next
    case True
    have up: "[i..<length sc] = i # [i + 1..<length sc]"
      using True by (simp add: upt_conv_Cons)
    note adv = advance_up_to_date_count_spec[OF srt True]
    show ?thesis
    proof (cases "snd (sc ! i) |\<notin>| vis")
      case nv: True
      show ?thesis
        using True nv "1.IH"(1)[OF True refl nv srt]
        by (subst eligible_loop.simps) (simp add: up Let_def)
    next
      case vis: False
      show ?thesis
      proof (cases "advance_up_to_date_count sc i (i + 1) > n div 2")
        case gt: True
        then have "2 * spec_up_to_date_count sc i > n"
          using adv by (simp add: more_than_half_iff)
        then show ?thesis
          using True vis gt "1.IH"(2)[OF True refl vis refl gt srt]
          by (subst eligible_loop.simps) (simp add: up Let_def)
      next
        case ngt: False
        then have "\<not> 2 * spec_up_to_date_count sc i > n"
          using adv by (simp add: more_than_half_iff)
        then show ?thesis
          using True vis ngt "1.IH"(3)[OF True refl vis refl ngt srt]
          by (subst eligible_loop.simps) (simp add: up Let_def)
      qed
    qed
  qed
qed

lemma eligible_loop_spec:
  "eligible_loop (spec_candidates vs acks) vis (fcard vs) 0 [] =
   spec_eligible vs vis (spec_candidates vs acks)"
  using eligible_loop_eq[OF sorted_fst_spec_candidates, of vs acks vis "fcard vs" 0 "[]"]
  by (simp add: spec_eligible_def)

lemma spec_eligible_subset:
  "set (spec_eligible vs vis (spec_candidates vs acks)) \<subseteq> fset vs \<inter> fset vis"
proof -
  have "snd (spec_candidates vs acks ! i) \<in> fset vs" if "i < length (spec_candidates vs acks)" for i
    using spec_candidates_servers[of vs acks] that by (metis image_subset_iff nth_mem)
  then show ?thesis
    by (auto simp: spec_eligible_def)
qed

lemma pick_primary_spec:
  "primary (pick_primary config acks vis (spec_eligible vs vis (spec_candidates vs acks)) c) =
   (case spec_elect config acks vs vis of
      Some s \<Rightarrow> Some \<lparr>server = s, hand_over = None\<rparr>
    | None \<Rightarrow> primary c)"
  by (simp add: pick_primary_def spec_elect_def Let_def is_nil_def)

lemma spec_elect_eligible:
  assumes "spec_elect config acks vs vis = Some s"
  shows "s \<in> set (spec_eligible vs vis (spec_candidates vs acks))"
  using assms by (auto simp: spec_elect_def Let_def split: if_splits)

lemma working_copy_without_primary:
  assumes "primary old_c = None"
  shows "old_c\<lparr>replicas := replicas old_c |\<union>| all_replicas config,
               voters := (if temp_voters old_c \<noteq> None \<and>
                   (\<exists>p a. primary old_c = Some p \<and> acks (server p) = Some a \<and> state a = primary_ready)
                 then the (temp_voters old_c) else voters old_c),
               temp_voters := (if B then Some (voting_replicas config)
                     else if temp_voters old_c \<noteq> None \<and>
                   (\<exists>p a. primary old_c = Some p \<and> acks (server p) = Some a \<and> state a = primary_ready)
                     then None else temp_voters old_c)\<rparr>
         = (if B then old_c\<lparr>replicas := replicas old_c |\<union>| all_replicas config,
                            temp_voters := Some (voting_replicas config)\<rparr>
            else old_c\<lparr>replicas := replicas old_c |\<union>| all_replicas config\<rparr>)"
  using assms by simp

lemma calculate_contract_election:
  assumes cc: "calculate_contract old_c config acks connections_map log_prefix = Inr (new_c, log)"
    and N: "primary old_c = None"
  shows "primary new_c =
         map_option (\<lambda>s. \<lparr>server = s, hand_over = None\<rparr>)
           (spec_elect config acks (voters old_c)
              (compute_visible_voters
                 (fst (begin_voter_change old_c (voting_replicas config) acks log_prefix
                         (old_c\<lparr>replicas := replicas old_c |\<union>| all_replicas config\<rparr>, [])))
                 connections_map))"
proof -
  let ?c0 = "old_c\<lparr>replicas := replicas old_c |\<union>| all_replicas config\<rparr>"
  let ?c2 = "fst (begin_voter_change old_c (voting_replicas config) acks log_prefix (?c0, []))"
  have c2: "old_c\<lparr>replicas := replicas old_c |\<union>| all_replicas config,
               voters := (if temp_voters old_c \<noteq> None \<and>
                   (\<exists>p a. primary old_c = Some p \<and> acks (server p) = Some a \<and> state a = primary_ready)
                 then the (temp_voters old_c) else voters old_c),
               temp_voters := (if temp_voters old_c = None \<and> voters old_c \<noteq> voting_replicas config \<and>
         fcard (ffilter (\<lambda>srv. case acks srv of
                     None \<Rightarrow> False
                   | Some a \<Rightarrow> state a = secondary_streaming \<or>
                       (case primary old_c of None \<Rightarrow> False | Some p \<Rightarrow> server p = srv))
                  (voting_replicas config))
           > fcard (voting_replicas config) div 2 then Some (voting_replicas config)
                     else if temp_voters old_c \<noteq> None \<and>
                   (\<exists>p a. primary old_c = Some p \<and> acks (server p) = Some a \<and> state a = primary_ready)
                     then None else temp_voters old_c)\<rparr> = ?c2"
    unfolding working_copy_without_primary[OF N] begin_voter_change_fst
    by simp
  from calculate_contract_summary(7)[OF cc N, unfolded c2]
  obtain unsorted where
    u: "collect_candidates acks (sorted_list_of_fset (voters old_c)) [] = Inr unsorted" and
    p: "primary new_c = primary (pick_primary config acks (compute_visible_voters ?c2 connections_map)
                    (eligible_loop (sort unsorted) (compute_visible_voters ?c2 connections_map)
                       (fcard (voters old_c)) 0 []) old_c)"
    by blast
  show ?thesis
    unfolding p collect_candidates_spec[OF u] eligible_loop_spec pick_primary_spec
    using N by (simp split: option.splits)
qed

section \<open>The driver's outputs do not depend on the log prefix\<close>

lemma foldl_result_simulation:
  assumes step: "\<And>s t x. R s t \<Longrightarrow> x \<in> set xs \<Longrightarrow> rel_sum (=) R (f s x) (g t x)"
    and init: "R s t"
  shows "rel_sum (=) R (foldl_result f s xs) (foldl_result g t xs)"
  using assms
proof (induction xs arbitrary: s t)
  case Nil
  then show ?case by simp
next
  case (Cons x xs)
  have r: "rel_sum (=) R (f s x) (g t x)"
    using Cons.prems by simp
  show ?case
  proof (cases "f s x")
    case (Inl e)
    with r have "g t x = Inl e" by (cases "g t x") auto
    with Inl show ?thesis by simp
  next
    case (Inr s')
    with r obtain t' where t': "g t x = Inr t'" "R s' t'" by (cases "g t x") auto
    have "rel_sum (=) R (foldl_result f s' xs) (foldl_result g t' xs)"
      using Cons.prems(1) t'(2) by (intro Cons.IH) auto
    with Inr t' show ?thesis by simp
  qed
qed

lemma visit_subregion_outputs:
  assumes "visit_outputs s = visit_outputs t"
  shows "rel_sum (=) (\<lambda>s t. visit_outputs s = visit_outputs t)
     (visit_subregion ops old_contract shard connections_map lp1 i s frag)
     (visit_subregion ops old_contract shard connections_map lp2 i t frag)"
proof -
  obtain n1 reg rs cs l1 where s: "s = (n1, reg, rs, cs, l1)" by (cases s)
  with assms obtain n2 l2 where t: "t = (n2, reg, rs, cs, l2)"
    by (cases t) (auto simp: visit_outputs_def)
  obtain r am where frag: "frag = (r, am)" by (cases frag)
  define sub1 where "sub1 = (if lp1 \<noteq> [] then lp1 @ '': shard '' @ decimal_of_nat i @ ''.'' @
                   decimal_of_nat n1 @ ''.'' @
                   decimal_of_int (get_cpu_shard_approx_number ops r) else [])"
  define sub2 where "sub2 = (if lp2 \<noteq> [] then lp2 @ '': shard '' @ decimal_of_nat i @ ''.'' @
                   decimal_of_nat n2 @ ''.'' @
                   decimal_of_int (get_cpu_shard_approx_number ops r) else [])"
  have eq: "map_sum id fst (calculate_contract old_contract shard am connections_map sub1) =
            map_sum id fst (calculate_contract old_contract shard am connections_map sub2)"
    using calculate_contract_log_prefix_irrelevant[of old_contract shard am connections_map sub1]
      calculate_contract_log_prefix_irrelevant[of old_contract shard am connections_map sub2]
    by simp
  have v1: "visit_subregion ops old_contract shard connections_map lp1 i (n1, reg, rs, cs, l1) frag =
     (case calculate_contract old_contract shard am connections_map sub1 of
            Inl e \<Rightarrow> Inl e
          | Inr (new_contract, log_lines) \<Rightarrow>
             (case register_branch old_contract new_contract am r reg of
                Inl e \<Rightarrow> Inl e
              | Inr reg' \<Rightarrow>
                  Inr (if lp1 \<noteq> [] \<and> region_end_is_hash_size ops r then n1 + 1 else n1, reg',
                       rs @ [r], cs @ [new_contract], l1 @ log_lines)))"
    unfolding visit_subregion_def frag sub1_def by (simp add: Let_def)
  have v2: "visit_subregion ops old_contract shard connections_map lp2 i (n2, reg, rs, cs, l2) frag =
     (case calculate_contract old_contract shard am connections_map sub2 of
            Inl e \<Rightarrow> Inl e
          | Inr (new_contract, log_lines) \<Rightarrow>
             (case register_branch old_contract new_contract am r reg of
                Inl e \<Rightarrow> Inl e
              | Inr reg' \<Rightarrow>
                  Inr (if lp2 \<noteq> [] \<and> region_end_is_hash_size ops r then n2 + 1 else n2, reg',
                       rs @ [r], cs @ [new_contract], l2 @ log_lines)))"
    unfolding visit_subregion_def frag sub2_def by (simp add: Let_def)
  show ?thesis
  proof (cases "calculate_contract old_contract shard am connections_map sub1")
    case (Inl e)
    with eq have "calculate_contract old_contract shard am connections_map sub2 = Inl e"
      by (cases "calculate_contract old_contract shard am connections_map sub2") auto
    with Inl show ?thesis unfolding s t v1 v2 by simp
  next
    case (Inr p)
    obtain nc ll where p: "p = (nc, ll)" by (cases p)
    with Inr eq obtain ll' where
      c2: "calculate_contract old_contract shard am connections_map sub2 = Inr (nc, ll')"
      by (cases "calculate_contract old_contract shard am connections_map sub2") auto
    show ?thesis
      unfolding s t v1 v2 Inr p c2
      by (cases "register_branch old_contract nc am r reg") (simp_all add: visit_outputs_def)
  qed
qed


lemma shard_step_outputs:
  assumes "driver_outputs s = driver_outputs t"
  shows "rel_sum (=) (\<lambda>s t. driver_outputs s = driver_outputs t)
     (shard_step ops old_state acks connections_map lp1 cpair s i)
     (shard_step ops old_state acks connections_map lp2 cpair t i)"
proof -
  let ?region = "region_intersection ops (fst (snd cpair)) (shard_scheme old_state i)"
  show ?thesis
  proof (cases "region_is_empty ops ?region")
    case True
    then show ?thesis using assms by (simp add: shard_step_def)
  next
    case False
    show ?thesis
    proof (cases "collect_frags_by_server ops old_state acks (fst cpair) ?region")
      case (Inl e)
      then show ?thesis using False by (simp add: shard_step_def)
    next
      case (Inr fbs)
      have init: "visit_outputs (0, s) = visit_outputs (0, t)"
        using assms by (cases s; cases t) (simp add: visit_outputs_def driver_outputs_def)
      have sim: "rel_sum (=) (\<lambda>s t. visit_outputs s = visit_outputs t)
          (foldl_result (visit_subregion ops (snd (snd cpair)) (shards old_state ! i)
                            connections_map lp1 i) (0, s) fbs)
          (foldl_result (visit_subregion ops (snd (snd cpair)) (shards old_state ! i)
                            connections_map lp2 i) (0, t) fbs)"
        by (rule foldl_result_simulation[OF visit_subregion_outputs init])
      have s1: "shard_step ops old_state acks connections_map lp1 cpair s i =
          (case foldl_result (visit_subregion ops (snd (snd cpair)) (shards old_state ! i)
                            connections_map lp1 i) (0, s) fbs of
             Inl e \<Rightarrow> Inl e | Inr (n, st') \<Rightarrow> Inr st')"
        using False Inr by (simp add: shard_step_def)
      have s2: "shard_step ops old_state acks connections_map lp2 cpair t i =
          (case foldl_result (visit_subregion ops (snd (snd cpair)) (shards old_state ! i)
                            connections_map lp2 i) (0, t) fbs of
             Inl e \<Rightarrow> Inl e | Inr (n, st') \<Rightarrow> Inr st')"
        using False Inr by (simp add: shard_step_def)
      show ?thesis
        unfolding s1 s2 using sim
        by (auto simp: rel_sum.simps visit_outputs_def driver_outputs_def)
    qed
  qed
qed

lemma calculate_new_contracts_outputs:
  assumes "driver_outputs s = driver_outputs t"
  shows "rel_sum (=) (\<lambda>s t. driver_outputs s = driver_outputs t)
     (calculate_new_contracts ops old_state acks connections_map lp1 s)
     (calculate_new_contracts ops old_state acks connections_map lp2 t)"
  unfolding calculate_new_contracts_def
  by (rule foldl_result_simulation[OF foldl_result_simulation[OF shard_step_outputs] assms])

lemma calculate_all_contracts_log_prefix_irrelevant:
  "map_sum id fst (calculate_all_contracts ops old_state acks connections_map lp1 uuids out) =
   map_sum id fst (calculate_all_contracts ops old_state acks connections_map lp2 uuids out)"
proof -
  have init: "driver_outputs (register_current_branches_out out, [], [], []) =
              driver_outputs (register_current_branches_out out, [], [], [])"
    by simp
  note sim = calculate_new_contracts_outputs[OF init, of ops old_state acks connections_map lp1 lp2]
  show ?thesis
  proof (cases "calculate_new_contracts ops old_state acks connections_map lp1
             (register_current_branches_out out, [], [], [])")
    case (Inl e)
    with sim have "calculate_new_contracts ops old_state acks connections_map lp2
             (register_current_branches_out out, [], [], []) = Inl e"
      by (auto simp: rel_sum.simps)
    with Inl show ?thesis by (simp add: calculate_all_contracts_def)
  next
    case (Inr st)
    obtain reg rs cs l where st: "st = (reg, rs, cs, l)" by (cases st)
    with sim Inr obtain l' where
      c2: "calculate_new_contracts ops old_state acks connections_map lp2
             (register_current_branches_out out, [], [], []) = Inr (reg, rs, cs, l')"
      by (auto simp: rel_sum.simps driver_outputs_def)
    show ?thesis
      unfolding calculate_all_contracts_def Inr st c2
      by (simp add: Let_def split: sum.splits prod.splits)
  qed
qed

section \<open>What the driver registers\<close>

lemma foldl_result_invariant:
  assumes "foldl_result f s xs = Inr s'"
    and "I s"
    and "\<And>s x s'. I s \<Longrightarrow> x \<in> set xs \<Longrightarrow> f s x = Inr s' \<Longrightarrow> I s'"
  shows "I s'"
  using assms
proof (induction xs arbitrary: s)
  case Nil
  then show ?case by simp
next
  case (Cons x xs)
  from Cons.prems(1) obtain s1 where s1: "f s x = Inr s1" "foldl_result f s1 xs = Inr s'"
    by (cases "f s x") auto
  have "I s1" using Cons.prems(3)[OF Cons.prems(2) _ s1(1)] by simp
  then show ?case
    using Cons.prems(3) by (intro Cons.IH[OF s1(2)]) auto
qed

lemma register_branchD:
  assumes "register_branch old_contract new_contract acks_map reg register_out = Inr register_out'"
  shows "register_out' = register_out \<or>
         (\<exists>old_p new_p a b. primary old_contract = Some old_p \<and> primary new_contract = Some new_p \<and>
            server old_p = server new_p \<and> acks_map (server old_p) = Some a \<and>
            state a = primary_need_branch \<and> frag_branch a = Some b \<and>
            register_out' = register_out(reg \<mapsto> b))"
  using assms unfolding register_branch_def
  by (auto split: option.splits if_splits)

lemma visit_subregionD:
  assumes "visit_subregion ops old_contract shard connections_map log_prefix shard_index
             (n, register_out, rs, cs, l) (r, acks_map) = Inr (n', register_out', rs', cs', l')"
  shows "\<exists>new_contract lines sub.
           calculate_contract old_contract shard acks_map connections_map sub
             = Inr (new_contract, lines) \<and>
           register_branch old_contract new_contract acks_map r register_out = Inr register_out' \<and>
           rs' = rs @ [r] \<and> cs' = cs @ [new_contract]"
proof -
  define sub where "sub = (if log_prefix \<noteq> [] then log_prefix @ '': shard '' @ decimal_of_nat shard_index @ ''.'' @
                   decimal_of_nat n @ ''.'' @
                   decimal_of_int (get_cpu_shard_approx_number ops r) else [])"
  have v: "visit_subregion ops old_contract shard connections_map log_prefix shard_index
             (n, register_out, rs, cs, l) (r, acks_map) =
     (case calculate_contract old_contract shard acks_map connections_map sub of
            Inl e \<Rightarrow> Inl e
          | Inr (new_contract, log_lines) \<Rightarrow>
             (case register_branch old_contract new_contract acks_map r register_out of
                Inl e \<Rightarrow> Inl e
              | Inr reg' \<Rightarrow>
                  Inr (if log_prefix \<noteq> [] \<and> region_end_is_hash_size ops r then n + 1 else n, reg',
                       rs @ [r], cs @ [new_contract], l @ log_lines)))"
    unfolding visit_subregion_def sub_def by (simp add: Let_def)
  from assms[unfolded v] show ?thesis
    by (auto split: sum.splits prod.splits)
qed


lemma calculate_new_contracts_registers:
  assumes run: "calculate_new_contracts ops old_state all_acks connections log_prefix
                  (register0, rs0, cs0, l0) = Inr (register_out, rs, cs, l)"
    and reg: "register_out r = Some b"
  shows "register0 r = Some b \<or>
          (\<exists>cid region old_contract i fbs acks_map new_contract lines sub old_p new_p a.
             (cid, region, old_contract) \<in> set (contracts old_state) \<and>
             i < length (shards old_state) \<and>
             collect_frags_by_server ops old_state all_acks cid
               (region_intersection ops region (shard_scheme old_state i)) = Inr fbs \<and>
             (r, acks_map) \<in> set fbs \<and>
             calculate_contract old_contract (shards old_state ! i) acks_map connections sub
               = Inr (new_contract, lines) \<and>
             primary old_contract = Some old_p \<and> primary new_contract = Some new_p \<and>
             server old_p = server new_p \<and>
             acks_map (server old_p) = Some a \<and> state a = primary_need_branch \<and>
             frag_branch a = Some b)"
proof -
  define Q where "Q r b \<longleftrightarrow>
          (\<exists>cid region old_contract i fbs acks_map new_contract lines sub old_p new_p a.
             (cid, region, old_contract) \<in> set (contracts old_state) \<and>
             i < length (shards old_state) \<and>
             collect_frags_by_server ops old_state all_acks cid
               (region_intersection ops region (shard_scheme old_state i)) = Inr fbs \<and>
             (r, acks_map) \<in> set fbs \<and>
             calculate_contract old_contract (shards old_state ! i) acks_map connections sub
               = Inr (new_contract, lines) \<and>
             primary old_contract = Some old_p \<and> primary new_contract = Some new_p \<and>
             server old_p = server new_p \<and>
             acks_map (server old_p) = Some a \<and> state a = primary_need_branch \<and>
             frag_branch a = Some b)" for r b
  define I where "I st \<longleftrightarrow> (\<forall>r b. fst st r = Some b \<longrightarrow> register0 r = Some b \<or> Q r b)"
    for st :: "'a driver_state"
  define J where "J st \<longleftrightarrow> I (snd st)" for st :: "'a visit_state"
  have visit: "J st'"
    if "J st" and cp: "cpair \<in> set (contracts old_state)" and i: "i < length (shards old_state)"
      and fbs: "collect_frags_by_server ops old_state all_acks (fst cpair)
               (region_intersection ops (fst (snd cpair)) (shard_scheme old_state i)) = Inr fbs"
      and frag: "frag \<in> set fbs"
      and step: "visit_subregion ops (snd (snd cpair)) (shards old_state ! i) connections
                   log_prefix i st frag = Inr st'"
    for st st' cpair i fbs frag
  proof -
    obtain n register1 rs1 cs1 l1 where st: "st = (n, register1, rs1, cs1, l1)" by (cases st)
    obtain n' register2 rs2 cs2 l2 where st': "st' = (n', register2, rs2, cs2, l2)" by (cases st')
    obtain r' acks_map where fr: "frag = (r', acks_map)" by (cases frag)
    obtain cid region old_contract where cpair: "cpair = (cid, region, old_contract)"
      by (cases cpair)
    from visit_subregionD[OF step[unfolded st st' fr]]
    obtain new_contract lines sub where
      cc: "calculate_contract (snd (snd cpair)) (shards old_state ! i) acks_map connections sub
             = Inr (new_contract, lines)" and
      rb: "register_branch (snd (snd cpair)) new_contract acks_map r' register1 = Inr register2"
      by blast
    from register_branchD[OF rb]
    show ?thesis
    proof
      assume "register2 = register1"
      with \<open>J st\<close> show ?thesis unfolding J_def I_def st st' by simp
    next
      assume "\<exists>old_p new_p a b. primary (snd (snd cpair)) = Some old_p \<and> primary new_contract = Some new_p \<and>
            server old_p = server new_p \<and> acks_map (server old_p) = Some a \<and>
            state a = primary_need_branch \<and> frag_branch a = Some b \<and>
            register2 = register1(r' \<mapsto> b)"
      then obtain old_p new_p a b' where
        w: "primary old_contract = Some old_p" "primary new_contract = Some new_p"
          "server old_p = server new_p" "acks_map (server old_p) = Some a"
          "state a = primary_need_branch" "frag_branch a = Some b'" and
        r2: "register2 = register1(r' \<mapsto> b')"
        unfolding cpair by auto
      have "Q r' b'"
        unfolding Q_def
        using cp[unfolded cpair] i fbs[unfolded cpair] frag[unfolded fr] cc[unfolded cpair] w
        by (auto intro!: exI)
      with \<open>J st\<close> show ?thesis
        unfolding J_def I_def st st' r2 by auto
    qed
  qed
  have shard: "I st'"
    if "I st" and cp: "cpair \<in> set (contracts old_state)" and i: "i < length (shards old_state)"
      and step: "shard_step ops old_state all_acks connections log_prefix cpair st i = Inr st'"
    for st st' cpair i
  proof -
    let ?region = "region_intersection ops (fst (snd cpair)) (shard_scheme old_state i)"
    show ?thesis
    proof (cases "region_is_empty ops ?region")
      case True
      with step \<open>I st\<close> show ?thesis by (simp add: shard_step_def)
    next
      case False
      with step obtain fbs where
        fbs: "collect_frags_by_server ops old_state all_acks (fst cpair) ?region = Inr fbs"
        by (cases "collect_frags_by_server ops old_state all_acks (fst cpair) ?region")
          (auto simp: shard_step_def)
      with step False obtain k where
        fr: "foldl_result (visit_subregion ops (snd (snd cpair)) (shards old_state ! i)
                            connections log_prefix i) (0, st) fbs = Inr (k, st')"
        by (auto simp: shard_step_def split: sum.splits)
      have "J (0, st)" using \<open>I st\<close> by (simp add: J_def)
      from foldl_result_invariant[OF fr, of J, OF this] visit[OF _ cp i fbs]
      have "J (k, st')" by blast
      then show ?thesis by (simp add: J_def)
    qed
  qed
  have contract: "I st'"
    if "I st" and cp: "cpair \<in> set (contracts old_state)"
      and step: "foldl_result (shard_step ops old_state all_acks connections log_prefix cpair) st
                   [0..<length (shards old_state)] = Inr st'"
    for st st' cpair
    using foldl_result_invariant[OF step, of I, OF \<open>I st\<close>] shard[OF _ cp] by auto
  have "I (register0, rs0, cs0, l0)" by (simp add: I_def)
  from foldl_result_invariant[OF run[unfolded calculate_new_contracts_def], of I, OF this]
    contract
  have "I (register_out, rs, cs, l)" by blast
  with reg show ?thesis unfolding I_def Q_def by simp
qed


lemma calculate_all_contractsD:
  assumes "calculate_all_contracts ops old_state all_acks connections log_prefix uuids out = Inr (d, lg)"
  shows "\<exists>rs cs fragments.
           calculate_new_contracts ops old_state all_acks connections log_prefix
             (register_current_branches_out out, [], [], [])
             = Inr (register_current_branches_out d, rs, cs, lg) \<and>
           sliced_fragments ops (shard_scheme old_state) (length (shards old_state)) rs cs
             = Inr fragments \<and>
           (remove_contracts_out d, add_contracts_out d) =
             diff_contracts (contracts old_state)
               (foldl (\<lambda>m (reg, contract). map_insert reg contract m) [] fragments) uuids
               (remove_contracts_out out) (add_contracts_out out)"
  using assms unfolding calculate_all_contracts_def Let_def
  by (auto split: sum.splits prod.splits)

section \<open>The diff\<close>







section \<open>Properties of the visibility oracle\<close>

text \<open>
  C2 (as stated): \<open>invisible_to_majority_of_set\<close> returns true iff strictly more than half
  of the judges definitely cannot see the target, for every judge set including empty and
  even-sized ones. This fails when exactly half of the judges see the target: with judges
  \<open>{1, 2}\<close>, both visible to the coordinator, judge 1 seeing target 3 and judge 2 not, only
  one of two judges cannot see the target, yet the function returns true. It also fails on
  the empty judge set, where the function returns true.
\<close>

theorem C2_half_split_counterexample:
  "invisible_to_majority_of_set 3 {|1, 2|} conn_half_split = True
   \<and> \<not> (2 * fcard (ffilter (\<lambda>J. \<not> (conn_half_split (J, 3) \<noteq> None \<or> conn_half_split (J, J) = None))
                          {|1, 2|})
          > fcard {|1, 2 :: server_id_t|})
   \<and> invisible_to_majority_of_set 3 {||} Map.empty = True
   \<and> \<not> (2 * fcard (ffilter (\<lambda>J. \<not> ((Map.empty :: connections_map_t) (J, 3) \<noteq> None
                                    \<or> (Map.empty :: connections_map_t) (J, J) = None)) {||})
          > fcard ({||} :: server_id_t fset))"
  by code_simp

text \<open>
  C2 (amended): \<open>invisible_to_majority_of_set\<close> returns true iff at least half of the judges
  definitely cannot see the target, that is, iff it is not the case that strictly more than
  half of the judges are counted as seeing it. A judge \<open>J\<close> is counted as seeing the target
  exactly when \<open>(J, target)\<close> is in the connections map or \<open>(J, J)\<close> is not.
\<close>

theorem C2_invisible_iff_at_least_half_cannot_see:
  "invisible_to_majority_of_set target judges connections_map
   \<longleftrightarrow> 2 * fcard (ffilter (\<lambda>J. \<not> (connections_map (J, target) \<noteq> None
                                  \<or> connections_map (J, J) = None)) judges)
       \<ge> fcard judges"
proof -
  let ?sees = "\<lambda>J. connections_map (J, target) \<noteq> None \<or> connections_map (J, J) = None"
  have split: "fcard (ffilter ?sees judges) + fcard (ffilter (\<lambda>J. \<not> ?sees J) judges) = fcard judges"
    by (rule fcard_ffilter_split)
  have "invisible_to_majority_of_set target judges connections_map
        \<longleftrightarrow> \<not> (fcard (ffilter ?sees judges) > fcard judges div 2)"
    unfolding invisible_to_majority_of_set_def Let_def count_seeing_judges ..
  also have "\<dots> \<longleftrightarrow> 2 * fcard (ffilter (\<lambda>J. \<not> ?sees J) judges) \<ge> fcard judges"
    using split by presburger
  finally show ?thesis .
qed

theorem C2_invisible_iff_at_least_half_cannot_see_witness:
  "invisible_to_majority_of_set 3 {|1, 2|} conn_half_split
   \<and> 2 * fcard (ffilter (\<lambda>J. \<not> (conn_half_split (J, 3) \<noteq> None \<or> conn_half_split (J, J) = None))
                        {|1, 2|})
       \<ge> fcard {|1, 2 :: server_id_t|}"
proof -
  have "invisible_to_majority_of_set 3 {|1, 2|} conn_half_split"
    by code_simp
  then show ?thesis
    using C2_invisible_iff_at_least_half_cannot_see [of 3 "{|1, 2|}" conn_half_split]
    by blast
qed

section \<open>Properties of the contract calculator\<close>

text \<open>
  C1: when the old contract has a primary \<open>P\<close>, \<open>calculate_contract\<close> returns a contract,
  and that contract either has no primary or has a primary on the same server as \<open>P\<close>,
  equal to \<open>P\<close> up to its \<open>hand_over\<close> field. One invocation never replaces a primary by a
  different server.
\<close>

theorem C1_primary_kept_or_cleared:
  assumes "primary old_c = Some P"
  shows "\<exists>new_c log. calculate_contract old_c config acks connections_map log_prefix = Inr (new_c, log) \<and>
           (primary new_c = None \<or>
            (\<exists>Q h. primary new_c = Some Q \<and> server Q = server P \<and> Q = P\<lparr>hand_over := h\<rparr>))"
proof -
  have "primary old_c = None \<longrightarrow> (\<forall>s a. s |\<in>| voters old_c \<and> acks s = Some a \<and>
             state a = secondary_need_primary \<longrightarrow> version a \<noteq> None)"
    using assms by simp
  from calculate_contract_returns[OF this]
  obtain new_c log where
    cc: "calculate_contract old_c config acks connections_map log_prefix = Inr (new_c, log)"
    by blast
  from calculate_contract_summary(5)[OF cc assms]
  have "primary new_c = None \<or>
            (\<exists>Q h. primary new_c = Some Q \<and> server Q = server P \<and> Q = P\<lparr>hand_over := h\<rparr>)"
    by auto
  with cc show ?thesis by blast
qed

theorem C1_primary_kept_or_cleared_witness:
  "primary (contract_123 (Some \<lparr>server = 1, hand_over = None\<rparr>)) = Some \<lparr>server = 1, hand_over = None\<rparr>
   \<and> calculate_contract (contract_123 (Some \<lparr>server = 1, hand_over = None\<rparr>)) (config_123 2)
        [2 \<mapsto> ack_of secondary_streaming] conn_all ''t''
      = Inr (contract_123 (Some \<lparr>server = 1, hand_over = Some 2\<rparr>), [(''t'', Handing_over_primary 1 2)])
   \<and> (\<exists>new_c log. calculate_contract (contract_123 (Some \<lparr>server = 1, hand_over = None\<rparr>)) (config_123 2)
        [2 \<mapsto> ack_of secondary_streaming] conn_all ''t'' = Inr (new_c, log) \<and>
           (primary new_c = None \<or>
            (\<exists>Q h. primary new_c = Some Q \<and> server Q = server \<lparr>server = 1, hand_over = None\<rparr> \<and>
                Q = \<lparr>server = 1, hand_over = None\<rparr>\<lparr>hand_over := h\<rparr>)))"
proof -
  have h: "primary (contract_123 (Some \<lparr>server = 1, hand_over = None\<rparr>)) = Some \<lparr>server = 1, hand_over = None\<rparr>"
    by (simp add: contract_123_def)
  have e: "calculate_contract (contract_123 (Some \<lparr>server = 1, hand_over = None\<rparr>)) (config_123 2)
        [2 \<mapsto> ack_of secondary_streaming] conn_all ''t''
      = Inr (contract_123 (Some \<lparr>server = 1, hand_over = Some 2\<rparr>), [(''t'', Handing_over_primary 1 2)])"
    by code_simp
  from h e C1_primary_kept_or_cleared[OF h, of "config_123 2" "[2 \<mapsto> ack_of secondary_streaming]" conn_all "''t''"]
  show ?thesis by blast
qed


text \<open>
  C3 (as stated): \<open>temp_voters\<close> is set iff the old contract has none, its voters differ from
  \<open>config.voting_replicas\<close>, and strictly more than half of the new voting set is streaming or
  is the existing primary, the primary counting whether or not it has sent an ack. This
  fails: with new voting set \<open>{1, 2, 3}\<close>, primary 1 without an ack and server 2 streaming,
  two of three servers are streaming or the primary, yet \<open>temp_voters\<close> stays unset, because
  the loop counts a server only if it has an ack.
\<close>

theorem C3_primary_without_ack_counterexample:
  "calculate_contract contract_one_voter (config_123 1) [2 \<mapsto> ack_of secondary_streaming] conn_all []
     = Inr (contract_one_voter, [])
   \<and> temp_voters contract_one_voter = None
   \<and> voters contract_one_voter \<noteq> voting_replicas (config_123 1)
   \<and> 2 * fcard (ffilter (\<lambda>srv.
            (case [2 \<mapsto> ack_of secondary_streaming] srv of
               None \<Rightarrow> False | Some a \<Rightarrow> state a = secondary_streaming) \<or>
            (case primary contract_one_voter of None \<Rightarrow> False | Some p \<Rightarrow> server p = srv))
          (voting_replicas (config_123 1)))
       > fcard (voting_replicas (config_123 1))"
  by code_simp

text \<open>
  C3 (amended): \<open>calculate_contract\<close> sets \<open>temp_voters\<close> (to \<open>config.voting_replicas\<close>) iff the
  old contract has no \<open>temp_voters\<close>, its voters differ from \<open>config.voting_replicas\<close>, and
  strictly more than half of the servers of the new voting set have sent an ack and are
  either in state \<open>secondary_streaming\<close> or the existing primary. The existing primary
  counts only if it has sent an ack, in any state.
\<close>

theorem C3_begin_voter_change_iff:
  assumes "calculate_contract old_c config acks connections_map log_prefix = Inr (new_c, log)"
  shows "(temp_voters old_c = None \<and> temp_voters new_c = Some (voting_replicas config))
         \<longleftrightarrow>
         (temp_voters old_c = None \<and> voters old_c \<noteq> voting_replicas config \<and>
          2 * fcard (ffilter (\<lambda>srv.
                 case acks srv of
                   None \<Rightarrow> False
                 | Some a \<Rightarrow> state a = secondary_streaming \<or>
                     (case primary old_c of None \<Rightarrow> False | Some p \<Rightarrow> server p = srv))
               (voting_replicas config))
            > fcard (voting_replicas config))"
  unfolding calculate_contract_summary(3)[OF assms] more_than_half_iff[symmetric]
  by auto

theorem C3_begin_voter_change_iff_witness:
  "calculate_contract (contract_123 (Some \<lparr>server = 1, hand_over = None\<rparr>)) config_234
      [2 \<mapsto> ack_of secondary_streaming, 3 \<mapsto> ack_of secondary_streaming] conn_all ''t''
     = Inr (\<lparr>replicas = {|1, 2, 3, 4|}, voters = {|1, 2, 3|}, temp_voters = Some {|2, 3, 4|},
             primary = Some \<lparr>server = 1, hand_over = Some 2\<rparr>, branch = 7\<rparr>,
            [(''t'', Beginning_replica_set_change), (''t'', Handing_over_primary 1 2)])
   \<and> temp_voters (contract_123 (Some \<lparr>server = 1, hand_over = None\<rparr>)) = None
   \<and> voters (contract_123 (Some \<lparr>server = 1, hand_over = None\<rparr>)) \<noteq> voting_replicas config_234
   \<and> 2 * fcard (ffilter (\<lambda>srv.
                 case [2 \<mapsto> ack_of secondary_streaming, 3 \<mapsto> ack_of secondary_streaming] srv of
                   None \<Rightarrow> False
                 | Some a \<Rightarrow> state a = secondary_streaming \<or>
                     (case primary (contract_123 (Some \<lparr>server = 1, hand_over = None\<rparr>)) of
                        None \<Rightarrow> False | Some p \<Rightarrow> server p = srv))
               (voting_replicas config_234))
            > fcard (voting_replicas config_234)"
proof -
  have e: "calculate_contract (contract_123 (Some \<lparr>server = 1, hand_over = None\<rparr>)) config_234
      [2 \<mapsto> ack_of secondary_streaming, 3 \<mapsto> ack_of secondary_streaming] conn_all ''t''
     = Inr (\<lparr>replicas = {|1, 2, 3, 4|}, voters = {|1, 2, 3|}, temp_voters = Some {|2, 3, 4|},
             primary = Some \<lparr>server = 1, hand_over = Some 2\<rparr>, branch = 7\<rparr>,
            [(''t'', Beginning_replica_set_change), (''t'', Handing_over_primary 1 2)])"
    by code_simp
  have t: "Some {|2, 3, 4|} = Some (voting_replicas config_234)"
    by (simp add: config_234_def)
  have o: "temp_voters (contract_123 (Some \<lparr>server = 1, hand_over = None\<rparr>)) = None"
    by (simp add: contract_123_def)
  from C3_begin_voter_change_iff[OF e] t o e show ?thesis by simp
qed

text \<open>
  C5: \<open>calculate_contract\<close> commits a voter change, setting \<open>voters\<close> to the old
  \<open>temp_voters\<close> and clearing \<open>temp_voters\<close>, iff the old contract has \<open>temp_voters\<close>, has a
  primary, and the acks map the primary's server to state \<open>primary_ready\<close>. When the old
  contract has \<open>temp_voters\<close> and the primary's ack is missing or in another state, \<open>voters\<close>
  and \<open>temp_voters\<close> are unchanged; so \<open>temp_voters\<close> is cleared only when the primary was
  \<open>primary_ready\<close> in the acks.
\<close>

theorem C5_commit_voter_change_iff:
  assumes "calculate_contract old_c config acks connections_map log_prefix = Inr (new_c, log)"
  shows "((\<exists>tv. temp_voters old_c = Some tv \<and> voters new_c = tv \<and> temp_voters new_c = None)
          \<longleftrightarrow>
          (temp_voters old_c \<noteq> None \<and>
           (\<exists>p a. primary old_c = Some p \<and> acks (server p) = Some a \<and> state a = primary_ready)))
         \<and>
         (temp_voters old_c \<noteq> None \<and>
          \<not> (\<exists>p a. primary old_c = Some p \<and> acks (server p) = Some a \<and> state a = primary_ready)
          \<longrightarrow> voters new_c = voters old_c \<and> temp_voters new_c = temp_voters old_c)
         \<and>
         (temp_voters old_c \<noteq> None \<and> temp_voters new_c = None
          \<longrightarrow> (\<exists>p a. primary old_c = Some p \<and> acks (server p) = Some a \<and> state a = primary_ready))"
  unfolding calculate_contract_summary(2,3)[OF assms]
  by auto

theorem C5_commit_voter_change_iff_witness:
  "calculate_contract contract_changing config_234 [1 \<mapsto> ack_of primary_ready] conn_all ''t''
     = Inr (\<lparr>replicas = {|2, 3, 4|}, voters = {|2, 3, 4|}, temp_voters = None,
             primary = None, branch = 7\<rparr>,
            [(''t'', Committed_replica_set_change), (''t'', Stopping_no_longer_voter 1)])
   \<and> calculate_contract contract_changing config_234 [1 \<mapsto> ack_of primary_need_branch] conn_all ''t''
     = Inr (contract_changing, [])
   \<and> temp_voters contract_changing = Some {|2, 3, 4|}
   \<and> (\<exists>p a. primary contract_changing = Some p \<and>
          [1 \<mapsto> ack_of primary_ready] (server p) = Some a \<and> state a = primary_ready)"
proof -
  have e: "calculate_contract contract_changing config_234 [1 \<mapsto> ack_of primary_ready] conn_all ''t''
     = Inr (\<lparr>replicas = {|2, 3, 4|}, voters = {|2, 3, 4|}, temp_voters = None,
             primary = None, branch = 7\<rparr>,
            [(''t'', Committed_replica_set_change), (''t'', Stopping_no_longer_voter 1)])"
    by code_simp
  have e2: "calculate_contract contract_changing config_234 [1 \<mapsto> ack_of primary_need_branch] conn_all ''t''
     = Inr (contract_changing, [])"
    by code_simp
  have t: "temp_voters contract_changing = Some {|2, 3, 4|}"
    by (simp add: contract_changing_def)
  from C5_commit_voter_change_iff[OF e] t
  have "\<exists>p a. primary contract_changing = Some p \<and>
          [1 \<mapsto> ack_of primary_ready] (server p) = Some a \<and> state a = primary_ready"
    by simp
  with e e2 t show ?thesis by blast
qed

text \<open>
  C4: when the old contract has no primary (and every voter's \<open>secondary_need_primary\<close> ack
  carries a version, which the source dereferences), \<open>calculate_contract\<close> returns a
  contract whose primary is the one \<open>spec_elect\<close> names, with no hand-over: the candidates
  are the voters in state \<open>secondary_need_primary\<close> sorted by (timestamp, server); a candidate
  is eligible iff it is in \<open>visible_voters\<close> and at least as up-to-date as strictly more than
  half of the voters; the designated primary is chosen if eligible; otherwise nobody is
  chosen if the designated primary is non-nil, visible and has sent no ack; otherwise the
  last eligible candidate is chosen, and nobody if there is none. Here \<open>visible_voters\<close> is
  computed from the working copy as it stands after lines 100-154.
\<close>

theorem C4_election_as_specified:
  assumes "primary old_c = None"
    and "\<forall>s a. s |\<in>| voters old_c \<and> acks s = Some a \<and> state a = secondary_need_primary
           \<longrightarrow> version a \<noteq> None"
  shows "\<exists>new_c log.
           calculate_contract old_c config acks connections_map log_prefix = Inr (new_c, log) \<and>
           primary new_c =
             map_option (\<lambda>s. \<lparr>server = s, hand_over = None\<rparr>)
               (spec_elect config acks (voters old_c)
                  (compute_visible_voters
                     (fst (begin_voter_change old_c (voting_replicas config) acks log_prefix
                             (old_c\<lparr>replicas := replicas old_c |\<union>| all_replicas config\<rparr>, [])))
                     connections_map))"
proof -
  from assms(2) have "primary old_c = None \<longrightarrow> (\<forall>s a. s |\<in>| voters old_c \<and> acks s = Some a \<and>
             state a = secondary_need_primary \<longrightarrow> version a \<noteq> None)"
    by blast
  from calculate_contract_returns[OF this]
  obtain new_c log where
    cc: "calculate_contract old_c config acks connections_map log_prefix = Inr (new_c, log)"
    by blast
  from cc calculate_contract_election[OF cc assms(1)] show ?thesis by blast
qed

theorem C4_election_as_specified_witness:
  "calculate_contract (contract_123 None) (config_123 2) acks_1_3 conn_2_unseen ''t''
     = Inr (contract_123 (Some \<lparr>server = 3, hand_over = None\<rparr>), [(''t'', Selected_as_primary 3)])
   \<and> calculate_contract (contract_123 None) (config_123 2) acks_1_3 conn_all ''t''
     = Inr (contract_123 None, [])
   \<and> (\<exists>new_c log.
           calculate_contract (contract_123 None) (config_123 2) acks_1_3 conn_2_unseen ''t''
             = Inr (new_c, log) \<and>
           primary new_c =
             map_option (\<lambda>s. \<lparr>server = s, hand_over = None\<rparr>)
               (spec_elect (config_123 2) acks_1_3 (voters (contract_123 None))
                  (compute_visible_voters
                     (fst (begin_voter_change (contract_123 None) (voting_replicas (config_123 2))
                             acks_1_3 ''t''
                             ((contract_123 None)\<lparr>replicas := replicas (contract_123 None)
                                 |\<union>| all_replicas (config_123 2)\<rparr>, [])))
                     conn_2_unseen)))
   \<and> spec_elect (config_123 2) acks_1_3 {|1, 2, 3|} {|1, 3|} = Some 3
   \<and> spec_elect (config_123 2) acks_1_3 {|1, 2, 3|} {|1, 2, 3|} = None"
proof -
  have h1: "primary (contract_123 None) = None"
    by (simp add: contract_123_def)
  have h2: "\<forall>s a. s |\<in>| voters (contract_123 None) \<and> acks_1_3 s = Some a \<and>
              state a = secondary_need_primary \<longrightarrow> version a \<noteq> None"
    by (auto simp: acks_1_3_def need_primary_at_def split: if_splits)
  have e1: "calculate_contract (contract_123 None) (config_123 2) acks_1_3 conn_2_unseen ''t''
     = Inr (contract_123 (Some \<lparr>server = 3, hand_over = None\<rparr>), [(''t'', Selected_as_primary 3)])"
    by code_simp
  have e2: "calculate_contract (contract_123 None) (config_123 2) acks_1_3 conn_all ''t''
     = Inr (contract_123 None, [])"
    by code_simp
  have e3: "spec_elect (config_123 2) acks_1_3 {|1, 2, 3|} {|1, 3|} = Some 3"
    by code_simp
  have e4: "spec_elect (config_123 2) acks_1_3 {|1, 2, 3|} {|1, 2, 3|} = None"
    by code_simp
  from e1 e2 e3 e4
    C4_election_as_specified[OF h1 h2, of "config_123 2" conn_2_unseen "''t''"]
  show ?thesis by blast
qed

text \<open>
  C6: if the old contract has its voters, its \<open>temp_voters\<close> and its primary's server among
  its replicas, and \<open>config.voting_replicas()\<close> is a subset of \<open>config.all_replicas\<close>, then the
  contract returned by \<open>calculate_contract\<close> again has its voters, its \<open>temp_voters\<close> (if
  present) and its primary's server (if a primary is set) among its replicas.
\<close>

theorem C6_replica_invariants_preserved:
  assumes cc: "calculate_contract old_c config acks connections_map log_prefix = Inr (new_c, log)"
    and v: "voters old_c |\<subseteq>| replicas old_c"
    and tv: "\<forall>tv. temp_voters old_c = Some tv \<longrightarrow> tv |\<subseteq>| replicas old_c"
    and pr: "\<forall>p. primary old_c = Some p \<longrightarrow> server p |\<in>| replicas old_c"
    and cfg: "voting_replicas config |\<subseteq>| all_replicas config"
  shows "voters new_c |\<subseteq>| replicas new_c \<and>
         (\<forall>tv. temp_voters new_c = Some tv \<longrightarrow> tv |\<subseteq>| replicas new_c) \<and>
         (\<forall>p. primary new_c = Some p \<longrightarrow> server p |\<in>| replicas new_c)"
proof -
  define begins where "begins \<longleftrightarrow> temp_voters old_c = None \<and> voters old_c \<noteq> voting_replicas config \<and>
         fcard (ffilter (\<lambda>srv. case acks srv of
                     None \<Rightarrow> False
                   | Some a \<Rightarrow> state a = secondary_streaming \<or>
                       (case primary old_c of None \<Rightarrow> False | Some p \<Rightarrow> server p = srv))
                  (voting_replicas config))
           > fcard (voting_replicas config) div 2"
  define commits where "commits \<longleftrightarrow> temp_voters old_c \<noteq> None \<and>
            (\<exists>p a. primary old_c = Some p \<and> acks (server p) = Some a \<and> state a = primary_ready)"
  define c2 where "c2 = old_c\<lparr>replicas := replicas old_c |\<union>| all_replicas config,
                     voters := (if commits then the (temp_voters old_c) else voters old_c),
                     temp_voters := (if begins then Some (voting_replicas config)
                                     else if commits then None else temp_voters old_c)\<rparr>"
  define pruned where "pruned = ffilter (\<lambda>srv. srv |\<notin>| all_replicas config \<and> srv |\<notin>| voters c2 \<and>
            (case temp_voters c2 of None \<Rightarrow> True | Some tv \<Rightarrow> srv |\<notin>| tv)) (replicas old_c)"
  note s = calculate_contract_summary[OF cc, folded begins_def commits_def, folded c2_def,
      folded pruned_def]
  have nv: "voters new_c = voters c2" and nt: "temp_voters new_c = temp_voters c2"
    and nr: "replicas new_c = replicas c2 |-| pruned"
    using s(2,3,4) by simp_all
  have v2: "voters c2 |\<subseteq>| replicas c2"
    using v tv unfolding c2_def commits_def by auto
  have t2: "\<forall>tv. temp_voters c2 = Some tv \<longrightarrow> tv |\<subseteq>| replicas c2"
    using tv cfg unfolding c2_def by auto
  have "voters new_c |\<subseteq>| replicas new_c"
    unfolding nv nr using v2 unfolding pruned_def by auto
  moreover have "\<forall>tv. temp_voters new_c = Some tv \<longrightarrow> tv |\<subseteq>| replicas new_c"
    unfolding nt nr using t2 unfolding pruned_def by auto
  moreover have "\<forall>p. primary new_c = Some p \<longrightarrow> server p |\<in>| replicas new_c"
  proof (intro allI impI)
    fix p assume p: "primary new_c = Some p"
    show "server p |\<in>| replicas new_c"
    proof (cases "primary old_c")
      case (Some P)
      from s(5)[OF Some] p have sp: "server p = server P" by auto
      from s(6)[OF Some] p have "server P |\<notin>| pruned" by auto
      moreover have "server P |\<in>| replicas c2"
        using pr Some unfolding c2_def by simp
      ultimately show ?thesis unfolding nr sp by simp
    next
      case None
      then have nc: "\<not> commits" unfolding commits_def by simp
      let ?vis = "compute_visible_voters
                 (fst (begin_voter_change old_c (voting_replicas config) acks log_prefix
                         (old_c\<lparr>replicas := replicas old_c |\<union>| all_replicas config\<rparr>, [])))
                 connections_map"
      from calculate_contract_election[OF cc None] p
      have "map_option (\<lambda>s. \<lparr>server = s, hand_over = None\<rparr>)
              (spec_elect config acks (voters old_c) ?vis) = Some p"
        by simp
      then have "spec_elect config acks (voters old_c) ?vis = Some (server p)"
        by (cases "spec_elect config acks (voters old_c) ?vis") auto
      from spec_elect_eligible[OF this] spec_eligible_subset[of "voters old_c" ?vis acks]
      have "server p |\<in>| voters old_c" by auto
      then have "server p |\<in>| voters new_c"
        unfolding nv c2_def using nc by simp
      with \<open>voters new_c |\<subseteq>| replicas new_c\<close> show ?thesis by auto
    qed
  qed
  ultimately show ?thesis by blast
qed

theorem C6_replica_invariants_preserved_witness:
  "calculate_contract contract_changing config_234 [1 \<mapsto> ack_of primary_ready] conn_all ''t''
     = Inr (\<lparr>replicas = {|2, 3, 4|}, voters = {|2, 3, 4|}, temp_voters = None,
             primary = None, branch = 7\<rparr>,
            [(''t'', Committed_replica_set_change), (''t'', Stopping_no_longer_voter 1)])
   \<and> voters contract_changing |\<subseteq>| replicas contract_changing
   \<and> temp_voters contract_changing = Some {|2, 3, 4|}
   \<and> {|2, 3, 4|} |\<subseteq>| replicas contract_changing
   \<and> primary contract_changing = Some \<lparr>server = 1, hand_over = None\<rparr>
   \<and> 1 |\<in>| replicas contract_changing
   \<and> voting_replicas config_234 |\<subseteq>| all_replicas config_234
   \<and> voters \<lparr>replicas = {|2, 3, 4|}, voters = {|2, 3, 4|}, temp_voters = None,
             primary = None, branch = 7\<rparr>
       |\<subseteq>| replicas \<lparr>replicas = {|2, 3, 4|}, voters = {|2, 3, 4|}, temp_voters = None,
             primary = None, branch = 7\<rparr>"
proof -
  have e: "calculate_contract contract_changing config_234 [1 \<mapsto> ack_of primary_ready] conn_all ''t''
     = Inr (\<lparr>replicas = {|2, 3, 4|}, voters = {|2, 3, 4|}, temp_voters = None,
             primary = None, branch = 7\<rparr>,
            [(''t'', Committed_replica_set_change), (''t'', Stopping_no_longer_voter 1)])"
    by code_simp
  have v: "voters contract_changing |\<subseteq>| replicas contract_changing"
    by (simp add: contract_changing_def)
  have t: "temp_voters contract_changing = Some {|2, 3, 4|}"
    and t': "{|2, 3, 4|} |\<subseteq>| replicas contract_changing"
    by (simp_all add: contract_changing_def)
  have p: "primary contract_changing = Some \<lparr>server = 1, hand_over = None\<rparr>"
    and p': "1 |\<in>| replicas contract_changing"
    by (simp_all add: contract_changing_def)
  have c: "voting_replicas config_234 |\<subseteq>| all_replicas config_234"
    by (simp add: config_234_def)
  have "voters \<lparr>replicas = {|2, 3, 4|}, voters = {|2, 3, 4|}, temp_voters = None,
             primary = None, branch = 7\<rparr>
       |\<subseteq>| replicas \<lparr>replicas = {|2, 3, 4|}, voters = {|2, 3, 4|}, temp_voters = None,
             primary = None, branch = 7\<rparr>"
    using C6_replica_invariants_preserved[OF e v _ _ c] t t' p p' by simp
  with e v t t' p p' c show ?thesis by blast
qed

section \<open>Properties of the driver\<close>

text \<open>
  C9: the contract returned by \<open>calculate_contract\<close> and the outputs of
  \<open>calculate_all_contracts\<close> (\<open>remove_contracts_out\<close>, \<open>add_contracts_out\<close>,
  \<open>register_current_branches_out\<close>), or the failure of either, are the same for any two log
  prefixes and otherwise equal inputs: the prefix reaches the log lines only.
\<close>

theorem C9_outputs_independent_of_log_prefix:
  "map_sum id fst (calculate_contract old_c config acks connections_map lp1) =
   map_sum id fst (calculate_contract old_c config acks connections_map lp2)
   \<and>
   map_sum id fst (calculate_all_contracts ops old_state all_acks connections lp1 uuids out) =
   map_sum id fst (calculate_all_contracts ops old_state all_acks connections lp2 uuids out)"
  using calculate_contract_log_prefix_irrelevant[of old_c config acks connections_map lp1]
    calculate_contract_log_prefix_irrelevant[of old_c config acks connections_map lp2]
    calculate_all_contracts_log_prefix_irrelevant[of ops old_state all_acks connections lp1 uuids out lp2]
  by simp

theorem C9_outputs_independent_of_log_prefix_witness:
  "calculate_contract (contract_123 None) (config_123 2) acks_1_3 conn_2_unseen ''T''
     = Inr (contract_123 (Some \<lparr>server = 3, hand_over = None\<rparr>), [(''T'', Selected_as_primary 3)])
   \<and> calculate_contract (contract_123 None) (config_123 2) acks_1_3 conn_2_unseen []
     = Inr (contract_123 (Some \<lparr>server = 3, hand_over = None\<rparr>), [])
   \<and> map_sum id snd (calculate_all_contracts two_cpu_shards state_two_contracts acks_two_contracts
         conn_all ''T'' (\<lambda>n. 100 + n) empty_diff)
     = Inr [(''T: shard 0.0.0'', Selected_as_primary 2)]
   \<and> map_sum id snd (calculate_all_contracts two_cpu_shards state_two_contracts acks_two_contracts
         conn_all [] (\<lambda>n. 100 + n) empty_diff)
     = Inr []
   \<and> map_sum id fst (calculate_all_contracts two_cpu_shards state_two_contracts acks_two_contracts
         conn_all ''T'' (\<lambda>n. 100 + n) empty_diff)
     = map_sum id fst (calculate_all_contracts two_cpu_shards state_two_contracts acks_two_contracts
         conn_all [] (\<lambda>n. 100 + n) empty_diff)"
proof -
  have e1: "calculate_contract (contract_123 None) (config_123 2) acks_1_3 conn_2_unseen ''T''
     = Inr (contract_123 (Some \<lparr>server = 3, hand_over = None\<rparr>), [(''T'', Selected_as_primary 3)])"
    by code_simp
  have e2: "calculate_contract (contract_123 None) (config_123 2) acks_1_3 conn_2_unseen []
     = Inr (contract_123 (Some \<lparr>server = 3, hand_over = None\<rparr>), [])"
    by code_simp
  have e3: "map_sum id snd (calculate_all_contracts two_cpu_shards state_two_contracts acks_two_contracts
         conn_all ''T'' (\<lambda>n. 100 + n) empty_diff)
     = Inr [(''T: shard 0.0.0'', Selected_as_primary 2)]"
    by code_simp
  have e4: "map_sum id snd (calculate_all_contracts two_cpu_shards state_two_contracts acks_two_contracts
         conn_all [] (\<lambda>n. 100 + n) empty_diff)
     = Inr []"
    by code_simp
  from e1 e2 e3 e4
    C9_outputs_independent_of_log_prefix[where old_c = "contract_123 None"
      and config = "config_123 2" and acks = acks_1_3 and connections_map = conn_2_unseen
      and ?lp1.0 = "''T''" and ?lp2.0 = "[]" and ops = two_cpu_shards
      and old_state = state_two_contracts and all_acks = acks_two_contracts
      and connections = conn_all and uuids = "\<lambda>n. 100 + n" and out = empty_diff]
  show ?thesis by simp
qed

text \<open>
  C10: the contract returned by \<open>calculate_contract\<close> has the branch of the old contract;
  and every branch that \<open>calculate_all_contracts\<close> adds to \<open>register_current_branches_out\<close> for
  a region is the branch carried by a \<open>primary_need_branch\<close> ack for that sub-region, sent by
  the server that is primary in both the old contract and the new contract computed for the
  sub-region.
\<close>

theorem C10_branch_kept_and_registered_on_request:
  "(calculate_contract old_c config acks connections_map log_prefix = Inr (new_c, log)
      \<longrightarrow> branch new_c = branch old_c)
   \<and>
   (calculate_all_contracts ops old_state all_acks connections log_prefix' uuids out = Inr (d, lg)
      \<longrightarrow> (\<forall>r b. register_current_branches_out d r = Some b \<longrightarrow>
             register_current_branches_out out r = Some b \<or>
             (\<exists>cid region old_contract i fbs acks_map new_contract lines sub old_p new_p a.
                (cid, region, old_contract) \<in> set (contracts old_state) \<and>
                i < length (shards old_state) \<and>
                collect_frags_by_server ops old_state all_acks cid
                  (region_intersection ops region (shard_scheme old_state i)) = Inr fbs \<and>
                (r, acks_map) \<in> set fbs \<and>
                calculate_contract old_contract (shards old_state ! i) acks_map connections sub
                  = Inr (new_contract, lines) \<and>
                primary old_contract = Some old_p \<and> primary new_contract = Some new_p \<and>
                server old_p = server new_p \<and>
                acks_map (server old_p) = Some a \<and> state a = primary_need_branch \<and>
                frag_branch a = Some b)))"
proof (intro conjI impI allI)
  assume "calculate_contract old_c config acks connections_map log_prefix = Inr (new_c, log)"
  then show "branch new_c = branch old_c"
    by (rule calculate_contract_summary(1))
next
  fix r b
  assume run: "calculate_all_contracts ops old_state all_acks connections log_prefix' uuids out
                 = Inr (d, lg)"
    and reg: "register_current_branches_out d r = Some b"
  from calculate_all_contractsD[OF run] obtain rs cs where
    "calculate_new_contracts ops old_state all_acks connections log_prefix'
             (register_current_branches_out out, [], [], [])
             = Inr (register_current_branches_out d, rs, cs, lg)"
    by blast
  from calculate_new_contracts_registers[OF this reg]
  show "register_current_branches_out out r = Some b \<or>
             (\<exists>cid region old_contract i fbs acks_map new_contract lines sub old_p new_p a.
                (cid, region, old_contract) \<in> set (contracts old_state) \<and>
                i < length (shards old_state) \<and>
                collect_frags_by_server ops old_state all_acks cid
                  (region_intersection ops region (shard_scheme old_state i)) = Inr fbs \<and>
                (r, acks_map) \<in> set fbs \<and>
                calculate_contract old_contract (shards old_state ! i) acks_map connections sub
                  = Inr (new_contract, lines) \<and>
                primary old_contract = Some old_p \<and> primary new_contract = Some new_p \<and>
                server old_p = server new_p \<and>
                acks_map (server old_p) = Some a \<and> state a = primary_need_branch \<and>
                frag_branch a = Some b)" .
qed

theorem C10_branch_kept_and_registered_on_request_witness:
  "calculate_contract contract_changing config_234 [1 \<mapsto> ack_of primary_ready] conn_all ''t''
     = Inr (\<lparr>replicas = {|2, 3, 4|}, voters = {|2, 3, 4|}, temp_voters = None,
             primary = None, branch = 7\<rparr>,
            [(''t'', Committed_replica_set_change), (''t'', Stopping_no_longer_voter 1)])
   \<and> branch \<lparr>replicas = {|2, 3, 4|}, voters = {|2, 3, 4|}, temp_voters = None,
             primary = None, branch = 7\<rparr> = branch contract_changing
   \<and> (\<exists>d lg. calculate_all_contracts two_cpu_shards state_two_contracts acks_two_contracts
                conn_all ''T'' (\<lambda>n. 100 + n) empty_diff = Inr (d, lg) \<and>
              register_current_branches_out d 2 = Some 9 \<and>
              register_current_branches_out d 1 = None \<and>
              (\<exists>cid region old_contract i fbs acks_map new_contract lines sub old_p new_p a.
                (cid, region, old_contract) \<in> set (contracts state_two_contracts) \<and>
                i < length (shards state_two_contracts) \<and>
                collect_frags_by_server two_cpu_shards state_two_contracts acks_two_contracts cid
                  (region_intersection two_cpu_shards region (shard_scheme state_two_contracts i))
                  = Inr fbs \<and>
                (2, acks_map) \<in> set fbs \<and>
                calculate_contract old_contract (shards state_two_contracts ! i) acks_map conn_all sub
                  = Inr (new_contract, lines) \<and>
                primary old_contract = Some old_p \<and> primary new_contract = Some new_p \<and>
                server old_p = server new_p \<and>
                acks_map (server old_p) = Some a \<and> state a = primary_need_branch \<and>
                frag_branch a = Some 9))"
proof -
  have e: "calculate_contract contract_changing config_234 [1 \<mapsto> ack_of primary_ready] conn_all ''t''
     = Inr (\<lparr>replicas = {|2, 3, 4|}, voters = {|2, 3, 4|}, temp_voters = None,
             primary = None, branch = 7\<rparr>,
            [(''t'', Committed_replica_set_change), (''t'', Stopping_no_longer_voter 1)])"
    by code_simp
  have "case calculate_all_contracts two_cpu_shards state_two_contracts acks_two_contracts
                conn_all ''T'' (\<lambda>n. 100 + n) empty_diff of
          Inl e \<Rightarrow> False
        | Inr (d, lg) \<Rightarrow> register_current_branches_out d 2 = Some 9 \<and>
                         register_current_branches_out d 1 = None"
    by code_simp
  then obtain d lg where
    run: "calculate_all_contracts two_cpu_shards state_two_contracts acks_two_contracts
                conn_all ''T'' (\<lambda>n. 100 + n) empty_diff = Inr (d, lg)" and
    r2: "register_current_branches_out d 2 = Some 9" and
    r1: "register_current_branches_out d 1 = None"
    by (auto split: sum.splits)
  have o: "register_current_branches_out empty_diff 2 = None"
    by (simp add: empty_diff_def)
  note inst = C10_branch_kept_and_registered_on_request[where old_c = contract_changing
      and config = config_234 and acks = "[1 \<mapsto> ack_of primary_ready]"
      and connections_map = conn_all and log_prefix = "''t''"
      and ops = two_cpu_shards and old_state = state_two_contracts
      and all_acks = acks_two_contracts and connections = conn_all and log_prefix' = "''T''"
      and uuids = "\<lambda>n. 100 + n" and out = empty_diff and d = d and lg = lg and log = "[(''t'', Committed_replica_set_change), (''t'', Stopping_no_longer_voter 1)]"
      and new_c = "\<lparr>replicas = {|2, 3, 4|}, voters = {|2, 3, 4|}, temp_voters = None,
             primary = None, branch = 7\<rparr>"]
  from inst e have b: "branch \<lparr>replicas = {|2, 3, 4|}, voters = {|2, 3, 4|}, temp_voters = None,
             primary = None, branch = 7\<rparr> = branch contract_changing"
    by blast
  from inst run r2 o have "\<exists>cid region old_contract i fbs acks_map new_contract lines sub old_p new_p a.
                (cid, region, old_contract) \<in> set (contracts state_two_contracts) \<and>
                i < length (shards state_two_contracts) \<and>
                collect_frags_by_server two_cpu_shards state_two_contracts acks_two_contracts cid
                  (region_intersection two_cpu_shards region (shard_scheme state_two_contracts i))
                  = Inr fbs \<and>
                (2, acks_map) \<in> set fbs \<and>
                calculate_contract old_contract (shards state_two_contracts ! i) acks_map conn_all sub
                  = Inr (new_contract, lines) \<and>
                primary old_contract = Some old_p \<and> primary new_contract = Some new_p \<and>
                server old_p = server new_p \<and>
                acks_map (server old_p) = Some a \<and> state a = primary_need_branch \<and>
                frag_branch a = Some 9"
    by (metis option.distinct(1))
  with e b run r2 r1 show ?thesis by blast
qed






end
